theory Spec2Isabelle
  imports Main "HOL-Library.Multiset" "HOL-Library.Sublist"
begin

section \<open>JavaScript values used by the processors\<close>

text \<open>
  Strings are lists of code units. A property that may be \<open>undefined\<close> is an
  \<open>option\<close>; \<open>None\<close> is \<open>undefined\<close>. A \<open>Date\<close> is its time value in
  milliseconds, \<open>None\<close> being the Invalid Date (whose time value is NaN).
\<close>

type_synonym jsdate = "int option"

datatype error = TypeError | RangeError | ThreadNotFound string

text \<open>Truthiness of a string-valued property: \<open>undefined\<close> and \<open>''\<close> are falsy.\<close>

fun truthy :: "string option \<Rightarrow> bool" where
  "truthy None = False"
| "truthy (Some s) = (s \<noteq> [])"

text \<open>Template-literal interpolation \<open>${v}\<close> of a string-valued property.\<close>

fun interp :: "string option \<Rightarrow> string" where
  "interp None = ''undefined''"
| "interp (Some s) = s"

text \<open>\<open>String.prototype.startsWith\<close>.\<close>

definition startsWith :: "string \<Rightarrow> string \<Rightarrow> bool" where
  "startsWith s p = (take (length p) s = p)"

text \<open>\<open>s.replace(p, r)\<close> with a string pattern: the first occurrence only.\<close>

fun replace_first :: "string \<Rightarrow> string \<Rightarrow> string \<Rightarrow> string" where
  "replace_first p r [] = (if p = [] then r else [])"
| "replace_first p r (x # xs) =
     (if take (length p) (x # xs) = p then r @ drop (length p) (x # xs)
      else x # replace_first p r xs)"

text \<open>\<open>s.split(c)\<close> with a one-character separator.\<close>

fun split_on :: "char \<Rightarrow> string \<Rightarrow> string list" where
  "split_on c [] = [[]]"
| "split_on c (x # xs) =
     (let r = split_on c xs in if x = c then [] # r else (x # hd r) # tl r)"

text \<open>\<open>xs.join(sep)\<close>.\<close>

fun join :: "string \<Rightarrow> string list \<Rightarrow> string" where
  "join sep [] = []"
| "join sep [x] = x"
| "join sep (x # y # ys) = x @ sep @ join sep (y # ys)"

text \<open>
  White space and line terminators as \<open>\s\<close> and \<open>trim\<close> see them, among the
  code units below 256: TAB, LF, VT, FF, CR, SP and NBSP.
\<close>

definition isSpace :: "char \<Rightarrow> bool" where
  "isSpace c =
     (c = CHR 0x09 \<or> c = CHR 0x0A \<or> c = CHR 0x0B \<or> c = CHR 0x0C \<or> c = CHR 0x0D \<or>
      c = CHR 0x20 \<or> c = CHR 0xA0)"

definition trim :: "string \<Rightarrow> string" where
  "trim s = rev (dropWhile isSpace (rev (dropWhile isSpace s)))"

text \<open>
  \<open>toLowerCase\<close> on code units below 256. The capitals are the units
  \<open>0x41\<close>-\<open>0x5A\<close> and \<open>0xC0\<close>-\<open>0xDE\<close> without the multiplication sign: all of
  the columns \<open>0x40\<close>-\<open>0x5F\<close> and \<open>0xC0\<close>-\<open>0xDF\<close> (bit 6 set, bit 5 clear) but
  eight units. The small letter is the capital with bit 5 set.
\<close>

fun lowerChar :: "char \<Rightarrow> char" where
  "lowerChar (Char b0 b1 b2 b3 b4 b5 b6 b7) =
     (if b6 \<and> \<not> b5 \<and>
         Char b0 b1 b2 b3 b4 b5 b6 b7 \<notin>
           set [CHR 0x40, CHR 0x5B, CHR 0x5C, CHR 0x5D, CHR 0x5E, CHR 0x5F, CHR 0xD7, CHR 0xDF]
      then Char b0 b1 b2 b3 b4 True b6 b7
      else Char b0 b1 b2 b3 b4 b5 b6 b7)"

definition toLowerCase :: "string \<Rightarrow> string" where
  "toLowerCase s = map lowerChar s"

section \<open>EmailThreadProcessor: records\<close>

text \<open>
  The object \<open>parseColumnHistory\<close> returns. \<open>isForward\<close> and \<open>isExternal\<close> are
  either \<open>true\<close> or absent; absent is \<open>False\<close> here, as both are only ever
  tested for truthiness.
\<close>

record threadInfo =
  messageId :: "string option"
  inReplyTo :: "string option"
  references :: "string list option"
  threadId :: "string option"
  isForward :: bool
  isExternal :: bool

text \<open>
  An email object: the thread information plus the fields the processors read.
  \<open>normalizedSubject\<close> is set by the Solr loader only.
\<close>

record email = threadInfo +
  id_f :: "string option"
  from_f :: "string option"
  to_f :: "string list"
  cc :: "string list"
  subject :: "string option"
  normalizedSubject :: string
  dateSent :: jsdate
  fullText :: "string option"

definition emptyInfo :: threadInfo where
  "emptyInfo = \<lparr>messageId = None, inReplyTo = None, references = None,
     threadId = None, isForward = False, isExternal = False\<rparr>"

text \<open>One iteration of the \<open>parts.forEach\<close> of \<open>parseColumnHistory\<close>.\<close>

definition parsePart :: "threadInfo \<Rightarrow> string \<Rightarrow> threadInfo" where
  "parsePart result part =
     (if startsWith part ''MSG-ID:''
        then result\<lparr>messageId := Some (replace_first ''MSG-ID:'' [] part)\<rparr>
      else if startsWith part ''IN-REPLY-TO:''
        then result\<lparr>inReplyTo := Some (replace_first ''IN-REPLY-TO:'' [] part)\<rparr>
      else if startsWith part ''REFS:''
        then (let refs = replace_first ''REFS:'' [] part in
              result\<lparr>references :=
                Some (if refs = ''<>'' then []
                      else filter (\<lambda>r. r \<noteq> []) (split_on CHR '' '' refs))\<rparr>)
      else if startsWith part ''THREAD:''
        then result\<lparr>threadId := Some (replace_first ''THREAD:'' [] part)\<rparr>
      else if part = ''FWD:true'' then result\<lparr>isForward := True\<rparr>
      else if part = ''EXTERNAL:true'' then result\<lparr>isExternal := True\<rparr>
      else result)"

definition parseColumnHistory :: "string option \<Rightarrow> threadInfo" where
  "parseColumnHistory columnHistory =
     (if \<not> truthy columnHistory then emptyInfo
      else foldl parsePart emptyInfo (split_on CHR ''|'' (the columnHistory)))"

text \<open>A row of the delimited file, as the CSV parser hands it over.\<close>

record row =
  BegBates :: "string option"
  column_history :: "string option"
  From :: "string option"
  To :: "string option"
  CC :: "string option"
  Subject :: "string option"
  DateSent :: "string option"
  FullText :: "string option"

text \<open>\<open>row.To ? row.To.split(',').map(e => e.trim()) : []\<close>.\<close>

definition addressList :: "string option \<Rightarrow> string list" where
  "addressList a = (if truthy a then map trim (split_on CHR '','' (the a)) else [])"

text \<open>
  \<open>new Date(v)\<close> for a string or \<open>undefined\<close>; \<open>parse\<close> is the engine's date
  parser, which yields no time value for text it cannot read.
\<close>

definition newDate :: "(string \<Rightarrow> int option) \<Rightarrow> string option \<Rightarrow> jsdate" where
  "newDate parse v = (case v of None \<Rightarrow> None | Some s \<Rightarrow> parse s)"

text \<open>The \<open>data\<close> handler of \<open>loadEmailsFromFile\<close>: one row becomes one email.\<close>

definition loadEmail :: "(string \<Rightarrow> int option) \<Rightarrow> row \<Rightarrow> email" where
  "loadEmail parse r =
     (let info = parseColumnHistory (column_history r) in
      \<lparr>messageId = messageId info, inReplyTo = inReplyTo info,
       references = references info, threadId = threadId info,
       isForward = isForward info, isExternal = isExternal info,
       id_f = BegBates r, from_f = From r, to_f = addressList (To r),
       cc = addressList (CC r), subject = Subject r, normalizedSubject = [],
       dateSent = newDate parse (DateSent r), fullText = FullText r\<rparr>)"

definition loadEmailsFromFile :: "(string \<Rightarrow> int option) \<Rightarrow> row list \<Rightarrow> email list" where
  "loadEmailsFromFile parse rows = map (loadEmail parse) rows"


section \<open>EmailThreadProcessor: grouping\<close>

text \<open>
  The comparator \<open>(a, b) => a.dateSent - b.dateSent\<close>. The difference is NaN
  when either date is invalid, and the sort reads a NaN result as \<open>+0\<close>.
\<close>

definition compareDateSent :: "('a email_scheme) \<Rightarrow> ('a email_scheme) \<Rightarrow> int" where
  "compareDateSent a b =
     (case (dateSent a, dateSent b) of (Some x, Some y) \<Rightarrow> x - y | _ \<Rightarrow> 0)"

text \<open>
  \<open>Array.prototype.sort\<close> with a comparator, as a stable insertion sort: an
  element moves in front of another only on a negative result. With invalid
  dates in the array the comparator is inconsistent and the engine may pick
  another order of the same elements.
\<close>

fun insertBy :: "('a \<Rightarrow> 'a \<Rightarrow> int) \<Rightarrow> 'a \<Rightarrow> 'a list \<Rightarrow> 'a list" where
  "insertBy cmp x [] = [x]"
| "insertBy cmp x (y # ys) =
     (if cmp x y \<le> 0 then x # y # ys else y # insertBy cmp x ys)"

definition sortBy :: "('a \<Rightarrow> 'a \<Rightarrow> int) \<Rightarrow> 'a list \<Rightarrow> 'a list" where
  "sortBy cmp xs = foldr (insertBy cmp) xs []"

text \<open>
  \<open>this.threads\<close> is a \<open>Map\<close> from thread id to an array of emails; it is an
  association list in insertion order here.
\<close>

type_synonym threads = "(string \<times> email list) list"

fun threadsGet :: "threads \<Rightarrow> string \<Rightarrow> email list option" where
  "threadsGet [] k = None"
| "threadsGet ((k', es) # ts) k = (if k' = k then Some es else threadsGet ts k)"

text \<open>
  \<open>if (!threads.has(k)) threads.set(k, []); threads.get(k).push(e)\<close>: a new
  key goes to the end of the map.
\<close>

fun threadsPush :: "string \<Rightarrow> email \<Rightarrow> threads \<Rightarrow> threads" where
  "threadsPush k e [] = [(k, [e])]"
| "threadsPush k e ((k', es) # ts) =
     (if k' = k then (k', es @ [e]) # ts else (k', es) # threadsPush k e ts)"

definition groupStep :: "threads \<Rightarrow> email \<Rightarrow> threads" where
  "groupStep ts e =
     (if \<not> truthy (threadId e) then ts else threadsPush (the (threadId e)) e ts)"

definition groupByThreads :: "email list \<Rightarrow> threads" where
  "groupByThreads emails =
     map (\<lambda>(k, es). (k, sortBy compareDateSent es)) (foldl groupStep [] emails)"


section \<open>EmailThreadProcessor: tree building\<close>

text \<open>
  \<open>buildThreadTree\<close> creates one node object per email, \<open>{...email, children: []}\<close>,
  stores it in \<open>emailMap\<close> under the email's \<open>messageId\<close>, and then pushes
  node objects into the \<open>children\<close> arrays of other node objects. The arrays hold
  references: a node pushed into an array is seen there with the children it
  receives later. The store below is \<open>emailMap\<close> after the first pass; a
  reference to a node object is the key under which the map holds it.
\<close>

type_synonym nodeRef = "string option"

record node = email +
  children :: "nodeRef list"

type_synonym emailMap = "nodeRef \<rightharpoonup> node"

definition newNode :: "email \<Rightarrow> node" where
  "newNode e = email.extend e (node.fields [])"

definition indexEmails :: "email list \<Rightarrow> emailMap" where
  "indexEmails emails = foldl (\<lambda>m e. m(messageId e \<mapsto> newNode e)) Map.empty emails"

text \<open>One iteration of the second \<open>emails.forEach\<close>.\<close>

definition linkStep :: "emailMap \<times> nodeRef list \<Rightarrow> email \<Rightarrow> emailMap \<times> nodeRef list" where
  "linkStep st e =
     (let (m, roots) = st; emailNode = messageId e in
      if truthy (inReplyTo e) \<and> m (inReplyTo e) \<noteq> None
      then (let parent = the (m (inReplyTo e)) in
            (m(inReplyTo e \<mapsto> parent\<lparr>children := children parent @ [emailNode]\<rparr>), roots))
      else (m, roots @ [emailNode]))"

text \<open>\<open>getUniqueParticipants\<close>: a \<open>Set\<close> keeps the first insertion of a value.\<close>

definition setAdd :: "'a list \<Rightarrow> 'a \<Rightarrow> 'a list" where
  "setAdd s a = (if a \<in> set s then s else s @ [a])"

definition getUniqueParticipants :: "('a email_scheme) list \<Rightarrow> string option list" where
  "getUniqueParticipants emails =
     foldl (\<lambda>participants e.
        foldl setAdd (foldl setAdd (setAdd participants (from_f e)) (map Some (to_f e)))
          (map Some (cc e))) [] emails"

text \<open>
  The returned object. Its \<open>roots\<close> array holds references to node objects;
  \<open>nodes_t\<close> is the store in which these references, and those of the
  \<open>children\<close> arrays behind them, are read. The source returns no map: what a
  caller sees of the store is what the roots lead to.
\<close>

record threadTree =
  threadId_t :: string
  roots_t :: "nodeRef list"
  nodes_t :: emailMap
  totalEmails :: nat
  participants :: "string option list"
  dateRange :: "jsdate \<times> jsdate"

text \<open>
  \<open>buildThreadTree\<close>; \<open>None\<close> is the \<open>null\<close> returned for an unknown thread.
  An empty array is never stored by \<open>groupByThreads\<close>; reading \<open>emails[0].dateSent\<close>
  of one would throw.
\<close>

definition buildThreadTree :: "threads \<Rightarrow> string \<Rightarrow> error + threadTree option" where
  "buildThreadTree ts tid =
     (case threadsGet ts tid of
        None \<Rightarrow> Inr None
      | Some [] \<Rightarrow> Inl TypeError
      | Some emails \<Rightarrow>
          (let (m, rs) = foldl linkStep (indexEmails emails, []) emails in
           Inr (Some \<lparr>threadId_t = tid, roots_t = rs, nodes_t = m,
                  totalEmails = length emails,
                  participants = getUniqueParticipants emails,
                  dateRange = (dateSent (hd emails), dateSent (last emails))\<rparr>)))"

section \<open>EmailThreadProcessor: statistics\<close>

text \<open>
  The finite tree a reference unfolds to. The statistics recurse through the
  \<open>children\<close> arrays, so on a graph with a cycle below a root they never
  return; \<open>unfold\<close> is \<open>None\<close> when the fuel does not reach the leaves.
\<close>

datatype tnode = TNode email "tnode list"

fun childrenOf :: "tnode \<Rightarrow> tnode list" where
  "childrenOf (TNode e cs) = cs"

fun unfold :: "nat \<Rightarrow> emailMap \<Rightarrow> nodeRef \<Rightarrow> tnode option" where
  "unfold 0 m k = None"
| "unfold (Suc n) m k =
     (case m k of
        None \<Rightarrow> None
      | Some nd \<Rightarrow>
          (case those (map (unfold n m) (children nd)) of
             None \<Rightarrow> None
           | Some cs \<Rightarrow> Some (TNode (email.truncate nd) cs)))"

definition unfoldRoots :: "nat \<Rightarrow> emailMap \<Rightarrow> nodeRef list \<Rightarrow> tnode list option" where
  "unfoldRoots n m rs = those (map (unfold n m) rs)"

function calculateMaxDepth :: "tnode list \<Rightarrow> nat \<Rightarrow> nat" where
  "calculateMaxDepth roots currentDepth =
     (if roots = [] then currentDepth
      else foldl (\<lambda>maxDepth nd.
             max maxDepth (calculateMaxDepth (childrenOf nd) (currentDepth + 1)))
           currentDepth roots)"
  by pat_completeness auto
termination
proof (relation "measure (\<lambda>(roots, d). size_list size roots)")
  fix roots :: "tnode list" and currentDepth :: nat and x :: tnode
  assume "x \<in> set roots"
  moreover have "size_list size (childrenOf x) < size x" by (cases x) simp
  ultimately have "size_list size (childrenOf x) < size_list size roots"
    by (rule size_list_estimation)
  then show "((childrenOf x, currentDepth + 1), (roots, currentDepth))
      \<in> measure (\<lambda>(roots, d). size_list size roots)" by simp
qed simp

function countBranches :: "tnode list \<Rightarrow> nat" where
  "countBranches roots =
     (if roots = [] then 0
      else foldl (\<lambda>branches nd.
             (if length (childrenOf nd) > 1 then branches + length (childrenOf nd)
              else branches) + countBranches (childrenOf nd))
           0 roots)"
  by pat_completeness auto
termination
proof (relation "measure (size_list size)")
  fix roots :: "tnode list" and x :: tnode
  assume "x \<in> set roots"
  moreover have "size_list size (childrenOf x) < size x" by (cases x) simp
  ultimately have "size_list size (childrenOf x) < size_list size roots"
    by (rule size_list_estimation)
  then show "(childrenOf x, roots) \<in> measure (size_list size)" by simp
qed simp


record stats =
  threadId_s :: string
  totalEmails_s :: nat
  participants_s :: "string option list"
  participantCount :: nat
  maxDepth :: nat
  branchCount :: nat
  forwardCount :: nat
  replyCount :: nat
  externalCount :: nat
  dateRange_s :: "jsdate \<times> jsdate"

text \<open>
  \<open>generateThreadStats\<close>. The nodes of a tree are the at most \<open>totalEmails\<close>
  values of \<open>emailMap\<close>, so a path longer than that repeats a node: with that
  much fuel \<open>unfoldRoots\<close> is \<open>None\<close> only when the recursion of the two
  statistics would not end, which the engine reports as a \<open>RangeError\<close>.
\<close>

definition generateThreadStats :: "threads \<Rightarrow> string \<Rightarrow> error + stats option" where
  "generateThreadStats ts tid =
     (case buildThreadTree ts tid of
        Inl err \<Rightarrow> Inl err
      | Inr None \<Rightarrow> Inr None
      | Inr (Some tree) \<Rightarrow>
          (case unfoldRoots (totalEmails tree) (nodes_t tree) (roots_t tree) of
             None \<Rightarrow> Inl RangeError
           | Some roots \<Rightarrow>
               (let emails = the (threadsGet ts tid) in
                Inr (Some \<lparr>threadId_s = tid, totalEmails_s = totalEmails tree,
                  participants_s = participants tree,
                  participantCount = length (participants tree),
                  maxDepth = calculateMaxDepth roots 0,
                  branchCount = countBranches roots,
                  forwardCount = length (filter isForward emails),
                  replyCount = length (filter (\<lambda>e. truthy (inReplyTo e)) emails),
                  externalCount = length (filter isExternal emails),
                  dateRange_s = dateRange tree\<rparr>))))"

section \<open>EmailThreadProcessor: export\<close>

text \<open>
  \<open>generateEmlContent\<close>. The elements of the header array are evaluated in
  order; \<open>email.to\<close> and \<open>email.cc\<close> are always arrays and \<open>email.dateSent\<close>
  always a \<open>Date\<close>, so the first expression that can throw is
  \<open>email.references.length\<close>. \<open>toUTCString\<close> is the engine's formatting of a
  valid time value.
\<close>

definition dateUTCString :: "(int \<Rightarrow> string) \<Rightarrow> jsdate \<Rightarrow> string" where
  "dateUTCString toUTCString d =
     (case d of None \<Rightarrow> ''Invalid Date'' | Some t \<Rightarrow> toUTCString t)"

definition generateEmlContent :: "(int \<Rightarrow> string) \<Rightarrow> email \<Rightarrow> error + string" where
  "generateEmlContent toUTCString e =
     (case references e of
        None \<Rightarrow> Inl TypeError
      | Some refs \<Rightarrow>
          (let headers =
             [Some (''Message-ID: '' @ interp (messageId e)),
              Some (''From: '' @ interp (from_f e)),
              Some (''To: '' @ join '', '' (to_f e)),
              (if length (cc e) > 0 then Some (''CC: '' @ join '', '' (cc e)) else None),
              Some (''Subject: '' @ interp (subject e)),
              Some (''Date: '' @ dateUTCString toUTCString (dateSent e)),
              (if truthy (inReplyTo e)
               then Some (''In-Reply-To: '' @ interp (inReplyTo e)) else None),
              (if length refs > 0 then Some (''References: '' @ join '' '' refs) else None)]
           in Inr (join [CHR 0x0D, CHR 0x0A] (map the (filter truthy headers))
                   @ [CHR 0x0D, CHR 0x0A, CHR 0x0D, CHR 0x0A]
                   @ (if truthy (fullText e) then the (fullText e) else []))))"

text \<open>
  The loop \<open>for (const email of emails)\<close> of \<open>exportForPythonProcessing\<close>: the
  files written so far, or the error that ends the loop.
\<close>

fun writeEmlFiles ::
  "(int \<Rightarrow> string) \<Rightarrow> email list \<Rightarrow> (string \<times> string) list \<Rightarrow> error + (string \<times> string) list"
where
  "writeEmlFiles toUTCString [] written = Inr written"
| "writeEmlFiles toUTCString (e # es) written =
     (case generateEmlContent toUTCString e of
        Inl err \<Rightarrow> Inl err
      | Inr emlContent \<Rightarrow>
          writeEmlFiles toUTCString es (written @ [(interp (id_f e) @ ''.eml'', emlContent)]))"

text \<open>
  \<open>exportForPythonProcessing\<close> up to the end of that loop, the file system
  accepting every write: the thread must exist, then each email is rendered.
\<close>

definition exportForPythonProcessing ::
  "(int \<Rightarrow> string) \<Rightarrow> threads \<Rightarrow> string \<Rightarrow> error + (string \<times> string) list"
where
  "exportForPythonProcessing toUTCString ts tid =
     (case buildThreadTree ts tid of
        Inl err \<Rightarrow> Inl err
      | Inr None \<Rightarrow> Inl (ThreadNotFound tid)
      | Inr (Some tree) \<Rightarrow> writeEmlFiles toUTCString (the (threadsGet ts tid)) [])"

section \<open>EmailThreadProcessor: predicates on inputs and trees\<close>

text \<open>
  Whether \<open>column_history\<close> carries a \<open>REFS:\<close> entry: it is read at all, and one
  of its \<open>|\<close>-separated parts starts with \<open>REFS:\<close>.
\<close>

definition hasRefsEntry :: "string option \<Rightarrow> bool" where
  "hasRefsEntry columnHistory =
     (truthy columnHistory \<and>
      (\<exists>part \<in> set (split_on CHR ''|'' (the columnHistory)). startsWith part ''REFS:''))"

text \<open>
  Whether the second pass of \<open>buildThreadTree\<close> attaches an email to a parent:
  the test \<open>email.inReplyTo && emailMap.has(email.inReplyTo)\<close>.
\<close>

definition linked :: "emailMap \<Rightarrow> email \<Rightarrow> bool" where
  "linked m e = (truthy (inReplyTo e) \<and> m (inReplyTo e) \<noteq> None)"

text \<open>Every node of a forest, parents before children.\<close>

fun nodesOf :: "tnode \<Rightarrow> tnode list" and allNodes :: "tnode list \<Rightarrow> tnode list" where
  "nodesOf (TNode e cs) = TNode e cs # allNodes cs"
| "allNodes [] = []"
| "allNodes (nd # rest) = nodesOf nd @ allNodes rest"

text \<open>
  The roots of a built thread as finite trees, with the fuel \<open>generateThreadStats\<close>
  is given.
\<close>

definition threadRoots :: "threads \<Rightarrow> string \<Rightarrow> tnode list option" where
  "threadRoots ts tid =
     (case buildThreadTree ts tid of
        Inr (Some tree) \<Rightarrow> unfoldRoots (totalEmails tree) (nodes_t tree) (roots_t tree)
      | _ \<Rightarrow> None)"

text \<open>
  The record a node of a forest carries, and the nodes of a returned tree: the
  objects its \<open>roots\<close> array leads to through the \<open>children\<close> arrays.
\<close>

fun emailOf :: "tnode \<Rightarrow> email" where
  "emailOf (TNode e cs) = e"

inductive reachable :: "emailMap \<Rightarrow> nodeRef list \<Rightarrow> nodeRef \<Rightarrow> bool" for m rs where
  root: "k \<in> set rs \<Longrightarrow> reachable m rs k"
| child: "reachable m rs k \<Longrightarrow> m k = Some nd \<Longrightarrow> c \<in> set (children nd) \<Longrightarrow> reachable m rs c"

code_pred reachable .

text \<open>
  The branch count in the specification's words: the sum, over all nodes, of the
  children beyond the first, \<open>max(0, childCount - 1)\<close>.
\<close>

definition branchesBeyondFirst :: "tnode list \<Rightarrow> nat" where
  "branchesBeyondFirst roots =
     sum_list (map (\<lambda>nd. length (childrenOf nd) - 1) (allNodes roots))"

text \<open>
  What \<open>countBranches\<close> adds up: a node with more than one child counts all its
  children, any other node counts nothing.
\<close>

definition branchingChildren :: "tnode \<Rightarrow> nat" where
  "branchingChildren nd = (if length (childrenOf nd) > 1 then length (childrenOf nd) else 0)"

text \<open>
  A linear reply chain, root first: every record after the first names the
  \<open>messageId\<close> of the record before it in \<open>inReplyTo\<close>, the identifiers are
  pairwise different, and the first record has no parent among them.
\<close>

fun chainFrom :: "email \<Rightarrow> email list \<Rightarrow> bool" where
  "chainFrom p [] = True"
| "chainFrom p (e # es) =
     (truthy (messageId p) \<and> inReplyTo e = messageId p \<and> chainFrom e es)"

definition isChain :: "email list \<Rightarrow> bool" where
  "isChain c =
     (case c of
        [] \<Rightarrow> False
      | r # rest \<Rightarrow>
          distinct (map messageId c) \<and>
          \<not> (truthy (inReplyTo r) \<and> inReplyTo r \<in> set (map messageId c)) \<and>
          chainFrom r rest)"

text \<open>The tree of a chain: each record the only child of the one before.\<close>

fun chainTree :: "email list \<Rightarrow> tnode list" where
  "chainTree [] = []"
| "chainTree (e # es) = [TNode e (chainTree es)]"

section \<open>AdvancedSolrProcessor: header extraction\<close>

text \<open>
  The regular expressions of \<open>extractEmailHeaders\<close> and \<open>normalizeSubject\<close> carry
  the \<open>i\<close> flag: two code units match when their canonical (upper-case) forms
  agree. Below 256 the units with a capital below 256 are the small letters
  \<open>0x61\<close>-\<open>0x7A\<close> and \<open>0xE0\<close>-\<open>0xFE\<close> without the division sign: all of the
  columns \<open>0x60\<close>-\<open>0x7F\<close> and \<open>0xE0\<close>-\<open>0xFF\<close> (bits 5 and 6 set) but eight units.
  The capital is the small letter with bit 5 cleared; every other unit is its own
  canonical form.
\<close>

fun canonicalize :: "char \<Rightarrow> char" where
  "canonicalize (Char b0 b1 b2 b3 b4 b5 b6 b7) =
     (if b6 \<and> b5 \<and>
         Char b0 b1 b2 b3 b4 b5 b6 b7 \<notin>
           set [CHR 0x60, CHR 0x7B, CHR 0x7C, CHR 0x7D, CHR 0x7E, CHR 0x7F, CHR 0xF7, CHR 0xFF]
      then Char b0 b1 b2 b3 b4 False b6 b7
      else Char b0 b1 b2 b3 b4 b5 b6 b7)"

text \<open>A literal of a pattern matches at the start of \<open>s\<close>, ignoring case.\<close>

fun literalAt :: "string \<Rightarrow> string \<Rightarrow> bool" where
  "literalAt [] s = True"
| "literalAt (c # cs) [] = False"
| "literalAt (c # cs) (x # xs) =
     (if canonicalize x = canonicalize c then literalAt cs xs else False)"

text \<open>
  An unanchored pattern \<open>/LIT rest/i\<close>: the capture at the leftmost position where
  the literal matches and \<open>rest\<close>, tried on what follows the literal, matches too.
\<close>

fun searchAfter :: "string \<Rightarrow> (string \<Rightarrow> string option) \<Rightarrow> string \<Rightarrow> string option" where
  "searchAfter lit rest [] = (if literalAt lit [] then rest [] else None)"
| "searchAfter lit rest (x # xs) =
     (if literalAt lit (x # xs)
      then (case rest (drop (length lit) (x # xs)) of
              Some c \<Rightarrow> Some c
            | None \<Rightarrow> searchAfter lit rest xs)
      else searchAfter lit rest xs)"

definition isLineBreak :: "char \<Rightarrow> bool" where
  "isLineBreak c = (c = CHR 0x0D \<or> c = CHR 0x0A)"

text \<open>
  \<open>\s*([^\r\n]+)\<close>. The greedy \<open>\s*\<close> takes all white space; when nothing that
  the group accepts follows, it gives back white space up to the last unit that
  is no line break, and the group starts there.
\<close>

fun lastLineStart :: "string \<Rightarrow> string option" where
  "lastLineStart [] = None"
| "lastLineStart (x # xs) =
     (case lastLineStart xs of
        Some r \<Rightarrow> Some r
      | None \<Rightarrow> if isLineBreak x then None else Some (x # xs))"

definition restOfLine :: "string \<Rightarrow> string option" where
  "restOfLine s =
     (let after = dropWhile isSpace s in
      if after \<noteq> [] then Some (takeWhile (\<lambda>c. \<not> isLineBreak c) after)
      else map_option (takeWhile (\<lambda>c. \<not> isLineBreak c)) (lastLineStart s))"

text \<open>\<open>\s*<([^>]+)>\<close>: white space, then a non-empty bracketed identifier.\<close>

definition bracketed :: "string \<Rightarrow> string option" where
  "bracketed s =
     (case dropWhile isSpace s of
        [] \<Rightarrow> None
      | x # xs \<Rightarrow>
          if x = CHR ''<'' \<and> takeWhile (\<lambda>c. c \<noteq> CHR ''>'') xs \<noteq> []
             \<and> dropWhile (\<lambda>c. c \<noteq> CHR ''>'') xs \<noteq> []
          then Some (takeWhile (\<lambda>c. c \<noteq> CHR ''>'') xs) else None)"

text \<open>\<open>\s*([^\r\n\s]+)\<close>: white space, then a non-empty run without white space.\<close>

definition bareToken :: "string \<Rightarrow> string option" where
  "bareToken s =
     (let after = dropWhile isSpace s in
      if after = [] then None else Some (takeWhile (\<lambda>c. \<not> isSpace c) after))"

text \<open>\<open>a || b\<close> on match results.\<close>

definition orElse :: "'a option \<Rightarrow> 'a option \<Rightarrow> 'a option" where
  "orElse a b = (case a of Some x \<Rightarrow> Some x | None \<Rightarrow> b)"

text \<open>\<open>s.split(/\s+/)\<close> and \<open>s.split(/[,;]/)\<close>: the pieces between separators.\<close>

fun splitWhen :: "(char \<Rightarrow> bool) \<Rightarrow> string \<Rightarrow> string list" where
  "splitWhen sep [] = [[]]"
| "splitWhen sep (x # xs) =
     (let r = splitWhen sep xs in if sep x then [] # r else (x # hd r) # tl r)"

function splitRuns :: "(char \<Rightarrow> bool) \<Rightarrow> string \<Rightarrow> string list" where
  "splitRuns sep [] = [[]]"
| "splitRuns sep (x # xs) =
     (if sep x then [] # splitRuns sep (dropWhile sep xs)
      else (let r = splitRuns sep xs in (x # hd r) # tl r))"
  by pat_completeness auto
termination
  by (relation "measure (\<lambda>(sep, s). length s)") (auto simp: less_Suc_eq_le length_dropWhile_le)

text \<open>
  The object \<open>extractEmailHeaders\<close> returns; an absent property is \<open>None\<close>.
  \<open>new Date(text)\<close> does not throw on unreadable text, it yields the Invalid
  Date: the \<open>catch\<close> branch that would store the current time is never taken.
\<close>

record headers =
  messageId_h :: "string option"
  inReplyTo_h :: "string option"
  references_h :: "string list option"
  from_h :: "string option"
  to_h :: "string list option"
  subject_h :: "string option"
  dateSent_h :: "jsdate option"

definition noHeaders :: headers where
  "noHeaders = \<lparr>messageId_h = None, inReplyTo_h = None, references_h = None, from_h = None,
     to_h = None, subject_h = None, dateSent_h = None\<rparr>"

definition dateMatch :: "string \<Rightarrow> string option" where
  "dateMatch body = orElse (searchAfter ''Date:'' restOfLine body) (searchAfter ''Sent:'' restOfLine body)"

definition extractEmailHeaders :: "(string \<Rightarrow> int option) \<Rightarrow> string option \<Rightarrow> headers" where
  "extractEmailHeaders parse body =
     (if \<not> truthy body then noHeaders
      else let b = the body in
        \<lparr>messageId_h = map_option trim
           (orElse (searchAfter ''Message-ID:'' bracketed b) (searchAfter ''Message-ID:'' bareToken b)),
         inReplyTo_h = map_option trim
           (orElse (searchAfter ''In-Reply-To:'' bracketed b) (searchAfter ''In-Reply-To:'' bareToken b)),
         references_h = map_option
           (\<lambda>m. map (filter (\<lambda>c. c \<noteq> CHR ''<'' \<and> c \<noteq> CHR ''>'')) (splitRuns isSpace (trim m)))
           (searchAfter ''References:'' restOfLine b),
         from_h = map_option trim (searchAfter ''From:'' restOfLine b),
         to_h = map_option
           (\<lambda>m. map trim (splitWhen (\<lambda>c. c = CHR '','' \<or> c = CHR '';'') (trim m)))
           (searchAfter ''To:'' restOfLine b),
         subject_h = map_option trim (searchAfter ''Subject:'' restOfLine b),
         dateSent_h = map_option (\<lambda>m. newDate parse (Some (trim m))) (dateMatch b)\<rparr>)"

section \<open>AdvancedSolrProcessor: subject normalisation\<close>

text \<open>
  \<open>subject.replace(/^(RE:|FW:|Fwd:|Re:)\s*/gi, '')\<close>. The pattern is anchored at
  the start of the string and there is no \<open>m\<close> flag, so it can match at index 0
  only: the \<open>g\<close> flag finds no second match, and one marker at most is removed.
  The alternatives are tried in order; \<open>\s*\<close> always succeeds after any of them.
\<close>

definition markerLength :: "string \<Rightarrow> nat option" where
  "markerLength s =
     map_option length (find (\<lambda>lit. literalAt lit s) [''RE:'', ''FW:'', ''Fwd:'', ''Re:''])"

definition replaceMarker :: "string \<Rightarrow> string" where
  "replaceMarker s =
     (case markerLength s of None \<Rightarrow> s | Some n \<Rightarrow> dropWhile isSpace (drop n s))"

definition normalizeSubject :: "string option \<Rightarrow> string" where
  "normalizeSubject subj =
     (if \<not> truthy subj then [] else toLowerCase (trim (replaceMarker (the subj))))"

section \<open>AdvancedSolrProcessor: loading\<close>

text \<open>
  A field of a Solr document that holds a string, an array of strings, or
  nothing.
\<close>

datatype field = Absent | Str string | Arr "string list"

record doc =
  id_d :: "string option"
  body :: "string option"
  email_subject :: "string option"
  email_from_str :: field
  email_to_str :: field
  email_datesent :: "string option"

text \<open>
  \<open>(Array.isArray(f) ? f[0] : f)\<close> as a string-valued property, and
  \<open>(Array.isArray(f) ? f : [f]).filter(Boolean)\<close>.
\<close>

fun firstOf :: "field \<Rightarrow> string option" where
  "firstOf Absent = None"
| "firstOf (Str s) = Some s"
| "firstOf (Arr xs) = (case xs of [] \<Rightarrow> None | x # _ \<Rightarrow> Some x)"

fun listOf :: "field \<Rightarrow> string list" where
  "listOf Absent = []"
| "listOf (Str s) = filter (\<lambda>a. a \<noteq> []) [s]"
| "listOf (Arr xs) = filter (\<lambda>a. a \<noteq> []) xs"

text \<open>\<open>a || b\<close> on string-valued properties: the first truthy one, else the last.\<close>

definition orStr :: "string option \<Rightarrow> string option \<Rightarrow> string option" where
  "orStr a b = (if truthy a then a else b)"

text \<open>
  The email object built for one document in \<open>getAllThreadableEmails\<close>; \<open>now\<close>
  is the clock reading of \<open>new Date()\<close>. A \<open>Date\<close> object is truthy even when
  invalid, so \<open>headers.dateSent || \<dots>\<close> keeps an extracted date whatever it is.
\<close>

definition solrEmail :: "(string \<Rightarrow> int option) \<Rightarrow> int \<Rightarrow> doc \<Rightarrow> email" where
  "solrEmail parse now d =
     (let h = extractEmailHeaders parse (body d) in
      \<lparr>messageId = messageId_h h, inReplyTo = inReplyTo_h h,
       references = Some (case references_h h of Some rs \<Rightarrow> rs | None \<Rightarrow> []),
       threadId = None, isForward = False, isExternal = False,
       id_f = id_d d,
       from_f = orStr (orStr (from_h h) (firstOf (email_from_str d))) (Some ''Unknown''),
       to_f = (case to_h h of Some addrs \<Rightarrow> addrs | None \<Rightarrow> listOf (email_to_str d)),
       cc = [],
       subject = orStr (orStr (subject_h h) (email_subject d)) (Some ''No Subject''),
       normalizedSubject = normalizeSubject (orStr (subject_h h) (email_subject d)),
       dateSent = (case dateSent_h h of
                     Some date \<Rightarrow> date
                   | None \<Rightarrow> if truthy (email_datesent d)
                             then newDate parse (email_datesent d) else Some now),
       fullText = orStr (body d) (Some [])\<rparr>)"

text \<open>What the processor writes to the console while loading.\<close>

datatype logLine = Getting nat | Loaded nat

text \<open>
  The state of an \<open>AdvancedSolrProcessor\<close>: \<open>this.emails\<close>, the \<open>Map\<close>
  \<open>this.messageIdToEmail\<close>, and the console.
\<close>

record processor =
  emails_p :: "email list"
  messageIdToEmail :: "string \<rightharpoonup> email"
  console_p :: "logLine list"

text \<open>
  The loop body: \<open>emails.push(email)\<close>, then
  \<open>if (email.messageId) this.messageIdToEmail.set(email.messageId, email)\<close>.
\<close>

definition registerEmail :: "email list \<times> (string \<rightharpoonup> email) \<Rightarrow> email \<Rightarrow> email list \<times> (string \<rightharpoonup> email)" where
  "registerEmail st e =
     (let (emails, index) = st in
      (emails @ [e],
       if truthy (messageId e) then index(the (messageId e) \<mapsto> e) else index))"

text \<open>
  \<open>getAllThreadableEmails\<close> on the documents the query returned, from a fresh
  processor.
\<close>

definition getAllThreadableEmails ::
  "(string \<Rightarrow> int option) \<Rightarrow> int \<Rightarrow> nat \<Rightarrow> doc list \<Rightarrow> processor" where
  "getAllThreadableEmails parse now limit docs =
     (let (emails, index) = foldl registerEmail ([], Map.empty) (map (solrEmail parse now) docs) in
      \<lparr>emails_p = sortBy compareDateSent emails, messageIdToEmail = index,
       console_p = [Getting limit, Loaded (length emails)]\<rparr>)"

section \<open>AdvancedSolrProcessor: the three threading approaches\<close>

text \<open>
  The walk to the thread root shared by the three approaches:
  \<open>while (current.inReplyTo && index.has(current.inReplyTo)) current = index.get(current.inReplyTo)\<close>.
  Nothing bounds the loop; \<open>None\<close> is the walk that never ends.
\<close>

partial_function (option) findRoot :: "(string \<rightharpoonup> email) \<Rightarrow> email \<Rightarrow> email option" where
  "findRoot index current =
     (if truthy (inReplyTo current) \<and> index (the (inReplyTo current)) \<noteq> None
      then findRoot index (the (index (the (inReplyTo current))))
      else Some current)"

text \<open>\<open>e.messageId || e.id\<close>, the key of a thread.\<close>

definition threadKey :: "email \<Rightarrow> string option" where
  "threadKey e = orStr (messageId e) (id_f e)"

definition hasParent :: "(string \<rightharpoonup> email) \<Rightarrow> email \<Rightarrow> bool" where
  "hasParent index e = (truthy (inReplyTo e) \<and> index (the (inReplyTo e)) \<noteq> None)"

record solrThread =
  id_st :: "string option"
  emails_st :: "email list"
  subject_st :: "string option"
  participants_st :: "string option list"
  method_st :: string

text \<open>The \<open>Map\<close> of threads, in insertion order.\<close>

type_synonym solrThreads = "(string option \<times> solrThread) list"

definition newThread :: "string \<Rightarrow> string option \<Rightarrow> email \<Rightarrow> solrThread" where
  "newThread method k e =
     \<lparr>id_st = k, emails_st = [], subject_st = subject e, participants_st = [], method_st = method\<rparr>"

text \<open>
  \<open>thread.emails.push(email)\<close> and the additions to \<open>thread.participants\<close>.
\<close>

definition joinThread :: "email \<Rightarrow> solrThread \<Rightarrow> solrThread" where
  "joinThread e th =
     th\<lparr>emails_st := emails_st th @ [e],
        participants_st := foldl setAdd (setAdd (participants_st th) (from_f e)) (map Some (to_f e))\<rparr>"

text \<open>
  The end of each loop body: create the thread under \<open>threadId\<close> unless the map
  has it, then add the email to it.
\<close>

fun addToThread :: "string \<Rightarrow> string option \<Rightarrow> email \<Rightarrow> solrThreads \<Rightarrow> solrThreads" where
  "addToThread method k e [] = [(k, joinThread e (newThread method k e))]"
| "addToThread method k e ((k', th) # ts) =
     (if k' = k then (k', joinThread e th) # ts else (k', th) # addToThread method k e ts)"

text \<open>
  The loop after the main one: \<open>participants\<close> becomes an array without falsy
  entries, and the emails of each thread are sorted by date.
\<close>

definition finishThreads :: "solrThreads \<Rightarrow> solrThreads" where
  "finishThreads ts =
     map (\<lambda>(k, th). (k, th\<lparr>participants_st := filter truthy (participants_st th),
                           emails_st := sortBy compareDateSent (emails_st th)\<rparr>)) ts"

text \<open>
  A loop over \<open>this.emails\<close> whose body may not return: the state after the
  last email, or \<open>None\<close>.
\<close>

fun forEachEmail :: "('s \<Rightarrow> email \<Rightarrow> 's option) \<Rightarrow> 's \<Rightarrow> email list \<Rightarrow> 's option" where
  "forEachEmail step st [] = Some st"
| "forEachEmail step st (e # es) =
     (case step st e of None \<Rightarrow> None | Some st' \<Rightarrow> forEachEmail step st' es)"

text \<open>Approach 1, \<open>buildMessageIdOnlyThreads\<close>: the loop body and the whole.\<close>

definition messageIdOnlyStep ::
  "(string \<rightharpoonup> email) \<Rightarrow> solrThreads \<times> string option list \<Rightarrow> email
     \<Rightarrow> (solrThreads \<times> string option list) option" where
  "messageIdOnlyStep index st e =
     (let (threads, processedEmails) = st in
      if id_f e \<in> set processedEmails then Some st
      else
        (case (if hasParent index e then map_option threadKey (findRoot index e)
               else Some (threadKey e)) of
           None \<Rightarrow> None
         | Some rootId \<Rightarrow>
             Some (addToThread ''message-id-only'' rootId e threads,
                   setAdd processedEmails (id_f e))))"

definition buildMessageIdOnlyThreads :: "processor \<Rightarrow> solrThreads option" where
  "buildMessageIdOnlyThreads p =
     map_option (finishThreads \<circ> fst)
       (forEachEmail (messageIdOnlyStep (messageIdToEmail p)) ([], []) (emails_p p))"

text \<open>
  Approach 2, \<open>buildMessageIdWithProximityThreads\<close>. The time test
  \<open>Math.abs(a - b) / (1000 * 60 * 60) <= proximityHours\<close> is false when either
  date is invalid; on time values it is the comparison of the difference in
  milliseconds with \<open>proximityHours * 3600000\<close>.
\<close>

definition withinHours :: "nat \<Rightarrow> jsdate \<Rightarrow> jsdate \<Rightarrow> bool" where
  "withinHours proximityHours a b =
     (case (a, b) of
        (Some x, Some y) \<Rightarrow> \<bar>x - y\<bar> \<le> int proximityHours * 3600000
      | _ \<Rightarrow> False)"

text \<open>
  The test of the proximity scan on one thread. A thread in the map holds at
  least one email; \<open>lastEmail\<close> is the one pushed last.
\<close>

definition proximityMatch :: "nat \<Rightarrow> email \<Rightarrow> string option \<times> solrThread \<Rightarrow> bool" where
  "proximityMatch proximityHours e kt =
     (let thread = snd kt; lastEmail = last (emails_st thread) in
      withinHours proximityHours (dateSent e) (dateSent lastEmail) \<and>
      (from_f e \<in> set (participants_st thread) \<or>
       (\<exists>addr \<in> set (to_f e). Some addr \<in> set (participants_st thread))))"

text \<open>\<open>threads.get(k)\<close>.\<close>

definition getThread :: "solrThreads \<Rightarrow> string option \<Rightarrow> solrThread option" where
  "getThread ts k = map_of ts k"

definition proximityStep ::
  "(string \<rightharpoonup> email) \<Rightarrow> nat \<Rightarrow> solrThreads \<times> string option list \<Rightarrow> email
     \<Rightarrow> (solrThreads \<times> string option list) option" where
  "proximityStep index proximityHours st e =
     (let (threads, processedEmails) = st in
      if id_f e \<in> set processedEmails then Some st
      else
        (case (if hasParent index e then map_option threadKey (findRoot index e)
               else Some (threadKey e)) of
           None \<Rightarrow> None
         | Some threadId0 \<Rightarrow>
             (let foundThread = (if hasParent index e then getThread threads threadId0 else None);
                  threadId1 =
                    (if foundThread = None
                     then (case find (proximityMatch proximityHours e) threads of
                             Some (tid, thread) \<Rightarrow> tid
                           | None \<Rightarrow> threadId0)
                     else threadId0)
              in Some (addToThread ''message-id-proximity'' threadId1 e threads,
                       setAdd processedEmails (id_f e)))))"

definition buildMessageIdWithProximityThreads :: "nat \<Rightarrow> processor \<Rightarrow> solrThreads option" where
  "buildMessageIdWithProximityThreads proximityHours p =
     map_option (finishThreads \<circ> fst)
       (forEachEmail (proximityStep (messageIdToEmail p) proximityHours) ([], []) (emails_p p))"

text \<open>
  Approach 3, \<open>buildHybridThreads\<close>. The state also holds \<open>subjectToThread\<close>, a
  \<open>Map\<close> from normalised subject to thread key.
\<close>

definition hybridStep ::
  "(string \<rightharpoonup> email) \<Rightarrow> solrThreads \<times> string option list \<times> (string \<rightharpoonup> string option) \<Rightarrow> email
     \<Rightarrow> (solrThreads \<times> string option list \<times> (string \<rightharpoonup> string option)) option" where
  "hybridStep index st e =
     (let (threads, processedEmails, subjectToThread) = st in
      if id_f e \<in> set processedEmails then Some st
      else
        (case (if hasParent index e then map_option (Some \<circ> threadKey) (findRoot index e)
               else Some None) of
           None \<Rightarrow> None
         | Some walked \<Rightarrow>
             (let found0 = (case walked of Some k \<Rightarrow> getThread threads k \<noteq> None | None \<Rightarrow> False);
                  bySubject =
                    (if \<not> found0 \<and> normalizedSubject e \<noteq> []
                     then subjectToThread (normalizedSubject e) else None);
                  found1 = (case bySubject of Some k \<Rightarrow> getThread threads k \<noteq> None | None \<Rightarrow> found0);
                  threadId1 = (case bySubject of Some k \<Rightarrow> k | None \<Rightarrow> the walked);
                  threadId2 = (if found1 then threadId1 else threadKey e);
                  subjectToThread' =
                    (if \<not> found1 \<and> normalizedSubject e \<noteq> []
                     then subjectToThread(normalizedSubject e \<mapsto> threadId2)
                     else subjectToThread)
              in Some (addToThread ''hybrid-message-id-subject'' threadId2 e threads,
                       setAdd processedEmails (id_f e), subjectToThread'))))"

definition buildHybridThreads :: "processor \<Rightarrow> solrThreads option" where
  "buildHybridThreads p =
     map_option (finishThreads \<circ> fst)
       (forEachEmail (hybridStep (messageIdToEmail p)) ([], [], Map.empty) (emails_p p))"

section \<open>AdvancedSolrProcessor: timestamps\<close>

text \<open>
  The text \<open>getAllThreadableEmails\<close> reads the timestamp of a document from: the
  trimmed capture of the \<open>Date:\<close> or \<open>Sent:\<close> line of the body when there is
  one, else a truthy \<open>email_datesent\<close>. With neither, the loader takes the clock.
\<close>

definition timestampText :: "doc \<Rightarrow> string option" where
  "timestampText d =
     (case (if truthy (body d) then dateMatch (the (body d)) else None) of
        Some m \<Rightarrow> Some (trim m)
      | None \<Rightarrow> if truthy (email_datesent d) then email_datesent d else None)"

text \<open>The time value of a valid date, the key the records are sorted by.\<close>

definition timeValue :: "('a email_scheme) \<Rightarrow> int" where
  "timeValue e = the (dateSent e)"

section \<open>Reading results\<close>

text \<open>
  A node with further references pushed into its \<open>children\<close> array.
\<close>

definition appendChildren :: "nodeRef list \<Rightarrow> node \<Rightarrow> node" where
  "appendChildren ks nd = nd\<lparr>children := children nd @ ks\<rparr>"

text \<open>One statistic of a result of \<open>generateThreadStats\<close>, if it returned statistics.\<close>

definition statOf :: "(stats \<Rightarrow> 'a) \<Rightarrow> error + stats option \<Rightarrow> 'a option" where
  "statOf f r = (case r of Inr (Some st) \<Rightarrow> Some (f st) | _ \<Rightarrow> None)"

text \<open>The tree of a result of \<open>buildThreadTree\<close>, if it returned one.\<close>

definition builtTree :: "error + threadTree option \<Rightarrow> threadTree option" where
  "builtTree r = (case r of Inr t \<Rightarrow> t | Inl err \<Rightarrow> None)"

text \<open>The keys of the threads of a result, each with the ids of its emails.\<close>

definition membership :: "solrThreads option \<Rightarrow> (string option \<times> string option list) list option" where
  "membership r = map_option (map (\<lambda>(k, th). (k, map id_f (emails_st th)))) r"

section \<open>Concrete inputs\<close>

text \<open>A row whose \<open>column_history\<close> names a message and a thread but no references.\<close>

definition demoRow :: row where
  "demoRow = \<lparr>BegBates = Some ''DOC-1'',
     column_history = Some ''MSG-ID:<a@x>|THREAD:T1'',
     From = Some ''ann@x'', To = Some ''bob@x'', CC = None, Subject = Some ''Hello'',
     DateSent = Some ''2024-01-01'', FullText = None\<rparr>"

text \<open>An email of thread processing with the fields that vary; the rest is fixed.\<close>

definition mkEmail :: "string \<Rightarrow> string option \<Rightarrow> string option \<Rightarrow> string option \<Rightarrow> int \<Rightarrow> email" where
  "mkEmail i mid irt tid t =
     \<lparr>messageId = mid, inReplyTo = irt, references = Some [], threadId = tid,
      isForward = False, isExternal = False, id_f = Some i, from_f = Some ''ann@x'',
      to_f = [''bob@x''], cc = [], subject = Some ''Hello'', normalizedSubject = [],
      dateSent = Some t, fullText = None\<rparr>"

text \<open>A record whose \<open>column_history\<close> had no \<open>THREAD:\<close> entry.\<close>

definition threadless :: email where
  "threadless = mkEmail ''DOC-9'' (Some ''<z@x>'') None None 5"

text \<open>A batch of two records of one thread and the record without thread id.\<close>

definition batch3 :: "email list" where
  "batch3 = [mkEmail ''DOC-2'' (Some ''<b@x>'') (Some ''<a@x>'') (Some ''T1'') 20,
             mkEmail ''DOC-1'' (Some ''<a@x>'') None (Some ''T1'') 10,
             threadless]"

text \<open>
  The thirteen messages of the threading pattern of the design notes, numbered as
  there: replies and forwards alike name their immediate parent in \<open>inReplyTo\<close>.
\<close>

definition fixtureEmail :: "string \<Rightarrow> string option \<Rightarrow> bool \<Rightarrow> int \<Rightarrow> email" where
  "fixtureEmail n parent fwd t =
     (mkEmail n (Some (''<'' @ n @ ''@x>''))
        (map_option (\<lambda>p. ''<'' @ p @ ''@x>'') parent) (Some ''THREAD-1'') t)
     \<lparr>isForward := fwd\<rparr>"

definition fixture13 :: "email list" where
  "fixture13 =
     [fixtureEmail ''A'' None False 1,
      fixtureEmail ''B'' (Some ''A'') False 2,
      fixtureEmail ''C'' (Some ''A'') False 3,
      fixtureEmail ''D'' (Some ''B'') False 4,
      fixtureEmail ''E'' (Some ''B'') True 5,
      fixtureEmail ''F'' (Some ''C'') False 6,
      fixtureEmail ''G'' (Some ''D'') False 7,
      fixtureEmail ''H'' (Some ''D'') True 8,
      fixtureEmail ''I'' (Some ''E'') False 9,
      fixtureEmail ''J'' (Some ''F'') False 10,
      fixtureEmail ''K'' (Some ''C'') True 11,
      fixtureEmail ''L'' (Some ''A'') False 12,
      fixtureEmail ''M'' (Some ''L'') False 13]"

text \<open>A reply chain of three records, and the same records in another order.\<close>

definition chain3 :: "email list" where
  "chain3 = [mkEmail ''DOC-1'' (Some ''<a@x>'') None (Some ''T1'') 10,
             mkEmail ''DOC-2'' (Some ''<b@x>'') (Some ''<a@x>'') (Some ''T1'') 20,
             mkEmail ''DOC-3'' (Some ''<c@x>'') (Some ''<b@x>'') (Some ''T1'') 30]"

definition chain3Shuffled :: "email list" where
  "chain3Shuffled = [mkEmail ''DOC-3'' (Some ''<c@x>'') (Some ''<b@x>'') (Some ''T1'') 30,
             mkEmail ''DOC-1'' (Some ''<a@x>'') None (Some ''T1'') 10,
             mkEmail ''DOC-2'' (Some ''<b@x>'') (Some ''<a@x>'') (Some ''T1'') 20]"

text \<open>
  The same reply chain from rows that had no \<open>THREAD:\<close> entry, and from rows
  whose \<open>THREAD:\<close> entries differ.
\<close>

definition chainUnkeyed :: "email list" where
  "chainUnkeyed = [mkEmail ''DOC-1'' (Some ''<a@x>'') None None 10,
             mkEmail ''DOC-2'' (Some ''<b@x>'') (Some ''<a@x>'') None 20,
             mkEmail ''DOC-3'' (Some ''<c@x>'') (Some ''<b@x>'') None 30]"

definition chainSplit :: "email list" where
  "chainSplit = [mkEmail ''DOC-1'' (Some ''<a@x>'') None (Some ''T1'') 10,
             mkEmail ''DOC-2'' (Some ''<b@x>'') (Some ''<a@x>'') (Some ''T1'') 20,
             mkEmail ''DOC-3'' (Some ''<c@x>'') (Some ''<b@x>'') (Some ''T2'') 30]"

text \<open>
  A date parser for the concrete inputs: it reads the two dates they use and
  nothing else.
\<close>

definition fixtureParse :: "string \<Rightarrow> int option" where
  "fixtureParse s =
     (if s = ''2024-01-01'' then Some 1704067200000
      else if s = ''2024-01-02'' then Some 1704153600000 else None)"

text \<open>
  A document whose body holds the given header lines, separated by CR LF; no
  field outside the body is set.
\<close>

definition mkDoc :: "string \<Rightarrow> string list \<Rightarrow> doc" where
  "mkDoc i headerLines =
     \<lparr>id_d = Some i, body = Some (join [CHR 0x0D, CHR 0x0A] headerLines),
      email_subject = None, email_from_str = Absent, email_to_str = Absent,
      email_datesent = None\<rparr>"

text \<open>Two documents with the same \<open>Message-ID\<close>, and one with an unreadable date.\<close>

definition docFirst :: doc where
  "docFirst = mkDoc ''1'' [''Message-ID: <m@x>'', ''Subject: First'', ''Date: 2024-01-01'']"

definition docSecond :: doc where
  "docSecond = mkDoc ''2'' [''Message-ID: <m@x>'', ''Subject: Second'', ''Date: 2024-01-02'']"

definition docBadDate :: doc where
  "docBadDate = mkDoc ''7'' [''Message-ID: <q@x>'', ''Subject: Plan'', ''Date: someday soon'']"

text \<open>
  Two records that name each other as parent, as documents of the search
  backend and as rows of a delimited file.
\<close>

definition docX :: doc where
  "docX = mkDoc ''8'' [''Message-ID: <x@c>'', ''In-Reply-To: <y@c>'']"

definition docY :: doc where
  "docY = mkDoc ''9'' [''Message-ID: <y@c>'', ''In-Reply-To: <x@c>'']"

text \<open>A row with the given Bates number, \<open>column_history\<close> and date.\<close>

definition mkRow :: "string \<Rightarrow> string \<Rightarrow> string \<Rightarrow> row" where
  "mkRow bates history date =
     \<lparr>BegBates = Some bates, column_history = Some history, From = Some ''ann@x'',
      To = Some ''bob@x'', CC = None, Subject = Some ''Hello'', DateSent = Some date,
      FullText = None\<rparr>"

definition rowX :: row where
  "rowX = mkRow ''DOC-8'' ''MSG-ID:<x@c>|IN-REPLY-TO:<y@c>|REFS:<y@c>|THREAD:T1'' ''2024-01-01''"

definition rowY :: row where
  "rowY = mkRow ''DOC-9'' ''MSG-ID:<y@c>|IN-REPLY-TO:<x@c>|REFS:<x@c>|THREAD:T1'' ''2024-01-02''"

text \<open>
  Two records of one thread that name each other as parent, and a third record
  of the thread that names no parent.
\<close>

definition mutualA :: email where
  "mutualA = mkEmail ''DOC-7'' (Some ''<a@c>'') None (Some ''T1'') 10"

definition mutualX :: email where
  "mutualX = mkEmail ''DOC-8'' (Some ''<x@c>'') (Some ''<y@c>'') (Some ''T1'') 20"

definition mutualY :: email where
  "mutualY = mkEmail ''DOC-9'' (Some ''<y@c>'') (Some ''<x@c>'') (Some ''T1'') 30"

text \<open>
  Three documents without headers in the body, an hour apart: the third shares
  its sender with the thread of the first and a recipient with the thread of
  the second.
\<close>

text \<open>
  The date parser on the three timestamps of these documents: ISO 8601 date-times
  in UTC, which \<open>new Date\<close> reads as the milliseconds since the epoch.
\<close>

definition hourParse :: "string \<Rightarrow> int option" where
  "hourParse s =
     (if s = ''2024-01-01T00:00:00Z'' then Some 1704067200000
      else if s = ''2024-01-01T01:00:00Z'' then Some 1704070800000
      else if s = ''2024-01-01T02:00:00Z'' then Some 1704074400000 else None)"

definition plainDoc :: "string \<Rightarrow> string \<Rightarrow> string \<Rightarrow> string list \<Rightarrow> string \<Rightarrow> doc" where
  "plainDoc i subj sender recipients sent =
     \<lparr>id_d = Some i, body = None, email_subject = Some subj, email_from_str = Str sender,
      email_to_str = Arr recipients, email_datesent = Some sent\<rparr>"

definition proximityDocs :: "doc list" where
  "proximityDocs =
     [plainDoc ''1'' ''Lunch'' ''alice@x'' [''bob@x''] ''2024-01-01T00:00:00Z'',
      plainDoc ''2'' ''Audit'' ''carol@x'' [''dave@x''] ''2024-01-01T01:00:00Z'',
      plainDoc ''3'' ''Notes'' ''alice@x'' [''carol@x''] ''2024-01-01T02:00:00Z'']"

text \<open>
  The same three records as emails, and the two threads that are open when the
  third is looked at.
\<close>

definition plainEmail :: "string \<Rightarrow> string \<Rightarrow> string \<Rightarrow> string list \<Rightarrow> int \<Rightarrow> email" where
  "plainEmail i subj sender recipients t =
     \<lparr>messageId = None, inReplyTo = None, references = Some [], threadId = None,
      isForward = False, isExternal = False, id_f = Some i, from_f = Some sender,
      to_f = recipients, cc = [], subject = Some subj, normalizedSubject = toLowerCase subj,
      dateSent = Some t, fullText = Some []\<rparr>"

definition lunch :: email where
  "lunch = plainEmail ''1'' ''Lunch'' ''alice@x'' [''bob@x''] 0"

definition audit :: email where
  "audit = plainEmail ''2'' ''Audit'' ''carol@x'' [''dave@x''] 3600000"

definition memo :: email where
  "memo = plainEmail ''3'' ''Notes'' ''alice@x'' [''carol@x''] 7200000"

definition lunchThread :: solrThread where
  "lunchThread = joinThread lunch (newThread ''message-id-proximity'' (Some ''1'') lunch)"

definition auditThread :: solrThread where
  "auditThread = joinThread audit (newThread ''message-id-proximity'' (Some ''2'') audit)"

text \<open>
  A message and a reply to it that carry the same timestamp, and a later reply.
\<close>

definition docRoot :: doc where
  "docRoot = (mkDoc ''1'' [''Message-ID: <a@h>''])
     \<lparr>email_subject := Some ''Kickoff'', email_datesent := Some ''2024-01-01''\<rparr>"

definition docReply :: doc where
  "docReply = (mkDoc ''2'' [''Message-ID: <b@h>'', ''In-Reply-To: <a@h>''])
     \<lparr>email_subject := Some ''Minutes'', email_datesent := Some ''2024-01-01''\<rparr>"

definition docLate :: doc where
  "docLate = (mkDoc ''3'' [''Message-ID: <c@h>'', ''In-Reply-To: <a@h>''])
     \<lparr>email_subject := Some ''Minutes'', email_datesent := Some ''2024-01-02''\<rparr>"
section \<open>Grouping: what a thread holds\<close>

lemma set_insertBy: "set (insertBy cmp x xs) = insert x (set xs)"
  by (induction xs) auto

lemma mset_insertBy: "mset (insertBy cmp x xs) = add_mset x (mset xs)"
  by (induction xs) auto

lemma mset_sortBy: "mset (sortBy cmp xs) = mset xs"
  by (induction xs) (simp_all add: sortBy_def mset_insertBy)

lemma set_sortBy: "set (sortBy cmp xs) = set xs"
  using mset_sortBy [of cmp xs] by (metis set_mset_mset)

lemma threadsGet_threadsPush:
  "threadsGet (threadsPush k e ts) k' =
     (if k' = k then Some (case threadsGet ts k of None \<Rightarrow> [e] | Some es \<Rightarrow> es @ [e])
      else threadsGet ts k')"
  by (induction ts) auto

lemma threadsGet_foldl_groupStep:
  "threadsGet (foldl groupStep ts emails) k =
     (if k = [] then threadsGet ts k
      else case threadsGet ts k of
        None \<Rightarrow> (if filter (\<lambda>e. threadId e = Some k) emails = [] then None
                  else Some (filter (\<lambda>e. threadId e = Some k) emails))
      | Some es \<Rightarrow> Some (es @ filter (\<lambda>e. threadId e = Some k) emails))"
proof (induction emails arbitrary: ts)
  case Nil
  then show ?case by (simp split: option.splits)
next
  case (Cons e emails)
  show ?case
  proof (cases "truthy (threadId e)")
    case False
    then have "threadId e \<noteq> Some k \<or> k = []" by (cases "threadId e") auto
    with False Cons show ?thesis by (auto simp: groupStep_def split: option.splits)
  next
    case True
    then obtain t where t: "threadId e = Some t" "t \<noteq> []" by (cases "threadId e") auto
    with Cons show ?thesis
      by (auto simp: groupStep_def threadsGet_threadsPush split: option.splits)
  qed
qed

lemma threadsGet_map:
  "threadsGet (map (\<lambda>(k, es). (k, f es)) ts) k = map_option f (threadsGet ts k)"
  by (induction ts) auto

lemma threadsGet_groupByThreads:
  "threadsGet (groupByThreads emails) k =
     (if k = [] \<or> filter (\<lambda>e. threadId e = Some k) emails = [] then None
      else Some (sortBy compareDateSent (filter (\<lambda>e. threadId e = Some k) emails)))"
  by (simp add: groupByThreads_def threadsGet_map threadsGet_foldl_groupStep)

section \<open>Export of records without references\<close>

lemma startsWith_Nil [simp]: "startsWith s [] = True"
  by (simp add: startsWith_def)

lemma startsWith_Cons:
  "startsWith s (c # p) = (case s of [] \<Rightarrow> False | x # xs \<Rightarrow> x = c \<and> startsWith xs p)"
  by (cases s) (auto simp: startsWith_def)

lemma mem_nonempty: "x \<in> set xs \<Longrightarrow> xs \<noteq> []"
  by auto

lemma references_parsePart:
  "references (parsePart result part) =
     (if startsWith part ''REFS:''
      then Some (if replace_first ''REFS:'' [] part = ''<>'' then []
                 else filter (\<lambda>r. r \<noteq> []) (split_on CHR '' '' (replace_first ''REFS:'' [] part)))
      else references result)"
  by (cases part) (auto simp: parsePart_def startsWith_Cons Let_def)

lemma references_foldl_parsePart:
  "(references (foldl parsePart result parts) = None) =
     (references result = None \<and> (\<forall>part \<in> set parts. \<not> startsWith part ''REFS:''))"
  by (induction parts arbitrary: result) (auto simp: references_parsePart)

lemma references_parseColumnHistory:
  "(references (parseColumnHistory columnHistory) = None) = (\<not> hasRefsEntry columnHistory)"
  by (auto simp: parseColumnHistory_def hasRefsEntry_def emptyInfo_def references_foldl_parsePart)

lemma references_loadEmail:
  "references (loadEmail parse r) = references (parseColumnHistory (column_history r))"
  by (simp add: loadEmail_def Let_def)

lemma generateEmlContent_undefined:
  "references e = None \<Longrightarrow> generateEmlContent toUTCString e = Inl TypeError"
  by (simp add: generateEmlContent_def)

lemma generateEmlContent_error:
  "generateEmlContent toUTCString e = Inl err \<Longrightarrow> err = TypeError"
  by (auto simp: generateEmlContent_def Let_def split: option.splits)

lemma writeEmlFiles_throws:
  "e \<in> set es \<Longrightarrow> references e = None \<Longrightarrow> writeEmlFiles toUTCString es written = Inl TypeError"
proof (induction es arbitrary: written)
  case Nil
  then show ?case by simp
next
  case (Cons x es)
  show ?case
  proof (cases "generateEmlContent toUTCString x")
    case (Inl err)
    then show ?thesis using generateEmlContent_error [OF Inl] by simp
  next
    case (Inr c)
    then have "x \<noteq> e" using Cons.prems(2) by (auto simp: generateEmlContent_def)
    with Cons Inr show ?thesis by simp
  qed
qed

text \<open>
  C10. A loaded record whose \<open>column_history\<close> has no \<open>REFS:\<close> entry keeps
  \<open>references\<close> undefined; rendering it throws a \<open>TypeError\<close> at
  \<open>email.references.length\<close>, and so does the export of the thread that holds it,
  whatever the other records of the thread are.
\<close>

theorem missing_refs_export_throws:
  assumes "r \<in> set rows" and "\<not> hasRefsEntry (column_history r)"
    and "threadId (loadEmail parse r) = Some tid" and "tid \<noteq> []"
  shows "references (loadEmail parse r) = None \<and>
         generateEmlContent toUTCString (loadEmail parse r) = Inl TypeError \<and>
         exportForPythonProcessing toUTCString
           (groupByThreads (loadEmailsFromFile parse rows)) tid = Inl TypeError"
proof -
  let ?e = "loadEmail parse r"
  let ?emails = "loadEmailsFromFile parse rows"
  let ?th = "filter (\<lambda>e. threadId e = Some tid) ?emails"
  have undef: "references ?e = None"
    using assms(2) by (simp add: references_loadEmail references_parseColumnHistory)
  have mem: "?e \<in> set ?th"
    using assms(1,3) by (simp add: loadEmailsFromFile_def)
  then have ne: "?th \<noteq> []" by (rule mem_nonempty)
  have get: "threadsGet (groupByThreads ?emails) tid = Some (sortBy compareDateSent ?th)"
    using ne assms(4) by (simp add: threadsGet_groupByThreads)
  have mem': "?e \<in> set (sortBy compareDateSent ?th)"
    using mem by (simp only: set_sortBy)
  then have ne': "sortBy compareDateSent ?th \<noteq> []" by (rule mem_nonempty)
  have "writeEmlFiles toUTCString (sortBy compareDateSent ?th) [] = Inl TypeError"
    using mem' undef by (rule writeEmlFiles_throws)
  then have "exportForPythonProcessing toUTCString (groupByThreads ?emails) tid = Inl TypeError"
    using get ne'
    by (cases "sortBy compareDateSent ?th")
       (simp_all add: exportForPythonProcessing_def buildThreadTree_def split_beta Let_def)
  with undef show ?thesis by (simp add: generateEmlContent_undefined)
qed

text \<open>C10 on a row without \<open>REFS:\<close> entry.\<close>

theorem missing_refs_export_throws_witness:
  "demoRow \<in> set [demoRow] \<and> \<not> hasRefsEntry (column_history demoRow) \<and>
   threadId (loadEmail (\<lambda>s. Some 0) demoRow) = Some ''T1'' \<and> ''T1'' \<noteq> [] \<and>
   references (loadEmail (\<lambda>s. Some 0) demoRow) = None \<and>
   generateEmlContent (\<lambda>t. ''Mon, 01 Jan 2024 00:00:00 GMT'') (loadEmail (\<lambda>s. Some 0) demoRow)
     = Inl TypeError \<and>
   exportForPythonProcessing (\<lambda>t. ''Mon, 01 Jan 2024 00:00:00 GMT'')
     (groupByThreads (loadEmailsFromFile (\<lambda>s. Some 0) [demoRow])) ''T1'' = Inl TypeError"
proof -
  have h1: "demoRow \<in> set [demoRow]" by simp
  have h2: "\<not> hasRefsEntry (column_history demoRow)"
    by (simp add: hasRefsEntry_def demoRow_def Let_def startsWith_def)
  have h3: "threadId (loadEmail (\<lambda>s. Some 0) demoRow) = Some ''T1''"
    by (simp add: loadEmail_def parseColumnHistory_def demoRow_def Let_def parsePart_def
          startsWith_def emptyInfo_def)
  have h4: "''T1'' \<noteq> []" by simp
  from missing_refs_export_throws [OF h1 h2 h3 h4] h1 h2 h3 h4 show ?thesis by blast
qed

section \<open>Grouping: every thread key once, every record with a thread id kept\<close>

lemma keys_threadsPush:
  "map fst (threadsPush k e ts) = (if k \<in> set (map fst ts) then map fst ts else map fst ts @ [k])"
  by (induction ts) (auto simp: rev_image_eqI)

lemma distinct_keys_threadsPush:
  "distinct (map fst ts) \<Longrightarrow> distinct (map fst (threadsPush k e ts))"
  by (simp add: keys_threadsPush)

lemma distinct_keys_foldl_groupStep:
  "distinct (map fst ts) \<Longrightarrow> distinct (map fst (foldl groupStep ts emails))"
  by (induction emails arbitrary: ts) (simp_all add: groupStep_def distinct_keys_threadsPush)

lemma keys_map_sorted: "map fst (map (\<lambda>(k, es). (k, f es)) ts) = map fst ts"
  by (induction ts) auto

lemma distinct_keys_groupByThreads: "distinct (map fst (groupByThreads emails))"
  unfolding groupByThreads_def keys_map_sorted
  by (rule distinct_keys_foldl_groupStep) simp

lemma threadsGet_mem: "(k, es) \<in> set ts \<Longrightarrow> distinct (map fst ts) \<Longrightarrow> threadsGet ts k = Some es"
  by (induction ts) (auto simp: rev_image_eqI)

lemma threadsGet_Some_mem: "threadsGet ts k = Some es \<Longrightarrow> (k, es) \<in> set ts"
  by (induction ts) (auto split: if_splits)

text \<open>
  C4, as the code has it. \<open>groupByThreads\<close> skips a record without a truthy
  \<open>threadId\<close>. Every other record is in exactly one thread: the map has each key
  once, the thread under a key holds exactly the records of the batch that carry
  that key as \<open>threadId\<close> (as often as the batch does), and so a record with a
  thread id is in the thread of that id, while a record without one is in none.
\<close>

theorem groupByThreads_assignment:
  "distinct (map fst (groupByThreads emails)) \<and>
   (\<forall>(k, es) \<in> set (groupByThreads emails).
      k \<noteq> [] \<and> mset es = filter_mset (\<lambda>e. threadId e = Some k) (mset emails)) \<and>
   (\<forall>e \<in> set emails.
      if truthy (threadId e)
      then \<exists>es. (the (threadId e), es) \<in> set (groupByThreads emails) \<and> e \<in> set es
      else \<forall>(k, es) \<in> set (groupByThreads emails). e \<notin> set es)"
proof -
  let ?g = "groupByThreads emails"
  have d: "distinct (map fst ?g)" by (rule distinct_keys_groupByThreads)
  have a: "k \<noteq> [] \<and> mset es = filter_mset (\<lambda>e. threadId e = Some k) (mset emails)"
    if "(k, es) \<in> set ?g" for k es
  proof -
    from that d have "threadsGet ?g k = Some es" by (rule threadsGet_mem)
    then show ?thesis
      by (auto simp: threadsGet_groupByThreads mset_sortBy split: if_splits)
  qed
  have b: "\<exists>es. (the (threadId e), es) \<in> set ?g \<and> e \<in> set es"
    if "e \<in> set emails" "truthy (threadId e)" for e
  proof -
    from that(2) obtain t where t: "threadId e = Some t" "t \<noteq> []"
      by (cases "threadId e") auto
    let ?th = "filter (\<lambda>x. threadId x = Some t) emails"
    from that(1) t have mem: "e \<in> set ?th" by simp
    then have "?th \<noteq> []" by (rule mem_nonempty)
    with t have "threadsGet ?g t = Some (sortBy compareDateSent ?th)"
      by (simp add: threadsGet_groupByThreads)
    then have "(t, sortBy compareDateSent ?th) \<in> set ?g" by (rule threadsGet_Some_mem)
    moreover have "e \<in> set (sortBy compareDateSent ?th)" using mem by (simp only: set_sortBy)
    ultimately show ?thesis using t by auto
  qed
  have c: "e \<notin> set es" if "\<not> truthy (threadId e)" "(k, es) \<in> set ?g" for e k es
  proof
    assume "e \<in> set es"
    then have "e \<in># mset es" by simp
    with a [OF that(2)] have "threadId e = Some k" "k \<noteq> []" by auto
    with that(1) show False by simp
  qed
  from d a b c show ?thesis by (auto simp del: truthy.simps)
qed

text \<open>
  C4 as stated fails: a batch of one record without \<open>threadId\<close> resolves to no
  thread at all, so the record is dropped and is the root of nothing.
\<close>

theorem dropped_record_counterexample:
  "groupByThreads [threadless] = []"
  by (simp add: groupByThreads_def groupStep_def threadless_def mkEmail_def)

lemma groupByThreads_batch3:
  "groupByThreads batch3 =
     [(''T1'', [mkEmail ''DOC-1'' (Some ''<a@x>'') None (Some ''T1'') 10,
                mkEmail ''DOC-2'' (Some ''<b@x>'') (Some ''<a@x>'') (Some ''T1'') 20])]"
  by (simp add: groupByThreads_def groupStep_def threadless_def mkEmail_def batch3_def
        sortBy_def compareDateSent_def)

text \<open>C4 on a batch of three: the two records of thread \<open>T1\<close> are in it, the record without thread id is not.\<close>

theorem groupByThreads_assignment_witness:
  "distinct (map fst (groupByThreads batch3)) \<and>
   (\<exists>es. (''T1'', es) \<in> set (groupByThreads batch3) \<and>
      mkEmail ''DOC-2'' (Some ''<b@x>'') (Some ''<a@x>'') (Some ''T1'') 20 \<in> set es \<and>
      mset es = filter_mset (\<lambda>e. threadId e = Some ''T1'') (mset batch3)) \<and>
   threadless \<notin> set (snd (hd (groupByThreads batch3)))"
proof -
  let ?e = "mkEmail ''DOC-2'' (Some ''<b@x>'') (Some ''<a@x>'') (Some ''T1'') 20"
  note t = groupByThreads_assignment [of batch3]
  have e: "?e \<in> set batch3" "truthy (threadId ?e)" "the (threadId ?e) = ''T1''"
    by (simp_all add: batch3_def mkEmail_def)
  with t obtain es where es: "(''T1'', es) \<in> set (groupByThreads batch3)" "?e \<in> set es"
    by (metis (no_types, lifting))
  with t have m: "mset es = filter_mset (\<lambda>e. threadId e = Some ''T1'') (mset batch3)"
    by blast
  have l: "threadless \<in> set batch3" "\<not> truthy (threadId threadless)"
    by (simp_all add: batch3_def threadless_def mkEmail_def)
  have "hd (groupByThreads batch3) \<in> set (groupByThreads batch3)"
    by (simp add: groupByThreads_batch3)
  with t l have "threadless \<notin> set (snd (hd (groupByThreads batch3)))"
    by (metis (no_types, lifting) case_prodE snd_conv)
  with t es m show ?thesis by blast
qed

section \<open>Tree building: what the second pass leaves\<close>

lemma linkStep_unfold:
  "linkStep (m, rs) e =
     (if linked m e
      then (m(inReplyTo e \<mapsto> (the (m (inReplyTo e)))
               \<lparr>children := children (the (m (inReplyTo e))) @ [messageId e]\<rparr>), rs)
      else (m, rs @ [messageId e]))"
  by (simp add: linkStep_def linked_def Let_def)

lemma appendChildren_Nil [simp]: "appendChildren [] nd = nd"
  by (simp add: appendChildren_def)

lemma appendChildren_append:
  "appendChildren ks (appendChildren js nd) = appendChildren (js @ ks) nd"
  by (simp add: appendChildren_def)

lemma foldl_linkStep:
  "foldl linkStep (m, rs) xs =
     (\<lambda>k. map_option
              (appendChildren (map messageId (filter (\<lambda>e. linked m e \<and> inReplyTo e = k) xs)))
              (m k),
      rs @ map messageId (filter (\<lambda>e. \<not> linked m e) xs))"
proof (induction xs arbitrary: m rs)
  case Nil
  show ?case by (simp add: option.map_ident fun_eq_iff map_option.identity)
next
  case (Cons e xs)
  show ?case
  proof (cases "linked m e")
    case False
    then show ?thesis by (simp add: linkStep_unfold Cons)
  next
    case True
    then obtain p where p: "m (inReplyTo e) = Some p" by (auto simp: linked_def)
    let ?m' = "m(inReplyTo e \<mapsto> appendChildren [messageId e] p)"
    have step: "linkStep (m, rs) e = (?m', rs)"
      using True p by (simp add: linkStep_unfold appendChildren_def)
    have same: "linked ?m' x = linked m x" for x
      using p by (auto simp: linked_def)
    have ih: "foldl linkStep (?m', rs) xs =
       (\<lambda>k. map_option
              (appendChildren (map messageId (filter (\<lambda>e. linked m e \<and> inReplyTo e = k) xs)))
              (?m' k),
        rs @ map messageId (filter (\<lambda>e. \<not> linked m e) xs))"
      using Cons [of ?m' rs] unfolding same .
    have "foldl linkStep (m, rs) (e # xs) = foldl linkStep (?m', rs) xs"
      by (simp add: step)
    also note ih
    finally show ?thesis
      using True p by (auto simp: fun_eq_iff appendChildren_append)
  qed
qed

section \<open>Statistics: the branch count\<close>

declare calculateMaxDepth.simps [simp del] countBranches.simps [simp del]

lemma foldl_branches:
  "foldl (\<lambda>branches nd. (if P nd then branches + k nd else branches) + c nd) (a::nat) xs =
     a + sum_list (map (\<lambda>nd. (if P nd then k nd else 0) + c nd) xs)"
  by (induction xs arbitrary: a) auto

lemma nodesOf_childrenOf: "nodesOf nd = nd # allNodes (childrenOf nd)"
  by (cases nd) simp

lemma countBranches_sum:
  "countBranches roots = sum_list (map branchingChildren (allNodes roots))"
proof (induction roots rule: countBranches.induct)
  case (1 roots)
  show ?case
  proof (cases "roots = []")
    case True
    then show ?thesis by (simp add: countBranches.simps)
  next
    case False
    have ih: "countBranches (childrenOf x) = sum_list (map branchingChildren (allNodes (childrenOf x)))"
      if "x \<in> set roots" for x
      using 1 [OF False that] .
    have "countBranches roots =
        sum_list (map (\<lambda>nd. branchingChildren nd + countBranches (childrenOf nd)) roots)"
      using False
      by (subst countBranches.simps) (simp add: foldl_branches branchingChildren_def)
    also have "\<dots> = sum_list (map (\<lambda>nd. branchingChildren nd
          + sum_list (map branchingChildren (allNodes (childrenOf nd)))) roots)"
      using ih by (auto intro!: arg_cong [where f = sum_list] map_cong)
    also have "\<dots> = sum_list (map branchingChildren (allNodes roots))"
      by (induction roots) (simp_all add: nodesOf_childrenOf)
    finally show ?thesis .
  qed
qed

lemma statOf_Some:
  "statOf f r = Some v \<Longrightarrow> \<exists>st. r = Inr (Some st) \<and> f st = v"
  by (auto simp: statOf_def split: sum.splits option.splits)

lemma generateThreadStats_roots:
  "generateThreadStats ts tid = Inr (Some st) \<Longrightarrow>
     \<exists>roots. threadRoots ts tid = Some roots \<and> maxDepth st = calculateMaxDepth roots 0 \<and>
        branchCount st = countBranches roots"
  by (auto simp: generateThreadStats_def threadRoots_def Let_def split: sum.splits option.splits)

text \<open>
  C1 as stated fails on the fixture of the design notes: the code reports 9
  branches there, where the sum of \<open>max(0, childCount - 1)\<close> over the same tree is
  5 (A has three children, B, C and D two each) and the claim expects 4.
\<close>

theorem branchCount_counterexample:
  "statOf branchCount (generateThreadStats (groupByThreads fixture13) ''THREAD-1'') = Some 9 \<and>
   map_option branchesBeyondFirst (threadRoots (groupByThreads fixture13) ''THREAD-1'') = Some 5"
  by code_simp

text \<open>
  C1, as the code has it. The branch count of a built thread is the sum, over the
  nodes that have more than one child, of the number of their children: a node
  with \<open>k > 1\<close> children adds \<open>k\<close>, not \<open>k - 1\<close>. On the fixture that is
  \<open>3 + 2 + 2 + 2 = 9\<close>.
\<close>

theorem branchCount_counts_children:
  "(generateThreadStats ts tid = Inr (Some st) \<longrightarrow>
      (\<exists>roots. threadRoots ts tid = Some roots \<and>
         branchCount st = sum_list (map branchingChildren (allNodes roots)))) \<and>
   statOf branchCount (generateThreadStats (groupByThreads fixture13) ''THREAD-1'') = Some 9"
proof
  show "generateThreadStats ts tid = Inr (Some st) \<longrightarrow>
      (\<exists>roots. threadRoots ts tid = Some roots \<and>
         branchCount st = sum_list (map branchingChildren (allNodes roots)))"
    using generateThreadStats_roots [of ts tid st] by (auto simp: countBranches_sum)
  show "statOf branchCount (generateThreadStats (groupByThreads fixture13) ''THREAD-1'') = Some 9"
    by code_simp
qed

text \<open>C1 on the fixture: its statistics exist, and its branch count is that sum, 9.\<close>

theorem branchCount_counts_children_witness:
  "\<exists>st roots. generateThreadStats (groupByThreads fixture13) ''THREAD-1'' = Inr (Some st) \<and>
     threadRoots (groupByThreads fixture13) ''THREAD-1'' = Some roots \<and>
     branchCount st = sum_list (map branchingChildren (allNodes roots)) \<and> branchCount st = 9"
proof -
  have "statOf branchCount (generateThreadStats (groupByThreads fixture13) ''THREAD-1'') = Some 9"
    by code_simp
  then obtain st where st: "generateThreadStats (groupByThreads fixture13) ''THREAD-1'' = Inr (Some st)"
      "branchCount st = 9"
    by (auto dest: statOf_Some)
  with branchCount_counts_children [of "groupByThreads fixture13" "''THREAD-1''" st]
  show ?thesis by blast
qed

section \<open>Tree building: the first pass\<close>

lemma indexEmails_snoc:
  "indexEmails (es @ [e]) = (indexEmails es)(messageId e \<mapsto> newNode e)"
  by (simp add: indexEmails_def)

lemma indexEmails_None: "(indexEmails es k = None) = (k \<notin> messageId ` set es)"
  by (induction es rule: rev_induct) (auto simp: indexEmails_snoc indexEmails_def)

lemma indexEmails_distinct:
  "distinct (map messageId es) \<Longrightarrow> e \<in> set es \<Longrightarrow> indexEmails es (messageId e) = Some (newNode e)"
  by (induction es rule: rev_induct) (auto simp: indexEmails_snoc rev_image_eqI)

lemma truncate_appendChildren [simp]:
  "email.truncate (appendChildren ks (newNode e)) = e"
  by (simp add: appendChildren_def newNode_def email.truncate_def email.extend_def node.fields_def)

lemma children_appendChildren [simp]:
  "children (appendChildren ks (newNode e)) = ks"
  by (simp add: appendChildren_def newNode_def email.extend_def node.fields_def)

lemma truncate_newNode [simp]: "email.truncate (newNode e) = e"
  by (simp add: newNode_def email.truncate_def email.extend_def node.fields_def)

lemma children_newNode [simp]: "children (newNode e) = []"
  by (simp add: newNode_def email.extend_def node.fields_def)

lemma filter_singleton:
  assumes "distinct xs" and "a \<in> set xs" and "Q a"
    and only: "\<And>x. x \<in> set xs \<Longrightarrow> Q x \<Longrightarrow> x = a"
  shows "filter Q xs = [a]"
proof -
  from assms(2) obtain ys zs where xs: "xs = ys @ a # zs" by (auto simp: in_set_conv_decomp)
  have "filter Q ys = []"
  proof (rule ccontr)
    assume "filter Q ys \<noteq> []"
    then obtain y where y: "y \<in> set ys" "Q y" by (auto simp: filter_empty_conv)
    with only [of y] xs have "y = a" by simp
    with y(1) assms(1) xs show False by simp
  qed
  moreover have "filter Q zs = []"
  proof (rule ccontr)
    assume "filter Q zs \<noteq> []"
    then obtain z where z: "z \<in> set zs" "Q z" by (auto simp: filter_empty_conv)
    with only [of z] xs have "z = a" by simp
    with z(1) assms(1) xs show False by simp
  qed
  ultimately show ?thesis using xs assms(3) by simp
qed

section \<open>Linear chains\<close>

lemma chainFrom_nth:
  "chainFrom p es \<Longrightarrow> i < length es \<Longrightarrow>
     inReplyTo (es ! i) = messageId ((p # es) ! i) \<and> truthy (messageId ((p # es) ! i))"
proof (induction es arbitrary: p i)
  case Nil
  then show ?case by simp
next
  case (Cons e es)
  then show ?case by (cases i) auto
qed

lemma isChain_nth:
  assumes "isChain c" and "Suc i < length c"
  shows "inReplyTo (c ! Suc i) = messageId (c ! i)" and "truthy (messageId (c ! i))"
proof -
  from assms obtain r rest where c: "c = r # rest" and ch: "chainFrom r rest"
    by (auto simp: isChain_def split: list.splits)
  from assms(2) c have "i < length rest" by simp
  from chainFrom_nth [OF ch this] c
  show "inReplyTo (c ! Suc i) = messageId (c ! i)" and "truthy (messageId (c ! i))" by simp_all
qed

lemma isChain_distinct: "isChain c \<Longrightarrow> distinct (map messageId c)"
  by (auto simp: isChain_def split: list.splits)

lemma isChain_root:
  "isChain c \<Longrightarrow> \<not> (truthy (inReplyTo (c ! 0)) \<and> inReplyTo (c ! 0) \<in> messageId ` set c)"
  by (auto simp: isChain_def split: list.splits)

lemma isChain_nonempty: "isChain c \<Longrightarrow> c \<noteq> []"
  by (auto simp: isChain_def)

lemma calculateMaxDepth_chainTree: "calculateMaxDepth (chainTree c) d = d + length c"
proof (induction c arbitrary: d)
  case Nil
  show ?case by (subst calculateMaxDepth.simps) simp
next
  case (Cons e c)
  show ?case by (subst calculateMaxDepth.simps) (simp add: Cons)
qed

lemma countBranches_chainTree: "countBranches (chainTree c) = 0"
proof (induction c)
  case Nil
  show ?case by (subst countBranches.simps) simp
next
  case (Cons e c)
  have "length (chainTree c) \<le> 1" by (cases c) simp_all
  then show ?case by (subst countBranches.simps) (simp add: Cons)
qed

lemma chain_unfolds:
  assumes ch: "isChain c" and perm: "mset es = mset c"
  shows "foldl linkStep (indexEmails es, []) es = (m, rs) \<Longrightarrow>
         unfoldRoots (length es) m rs = Some (chainTree c)"
proof -
  assume run: "foldl linkStep (indexEmails es, []) es = (m, rs)"
  let ?N = "length c"
  let ?m0 = "indexEmails es"
  have len: "length es = ?N" using perm by (rule mset_eq_length)
  have sets: "set es = set c" using perm by (rule mset_eq_setD)
  have pos: "0 < ?N" using isChain_nonempty [OF ch] by simp
  have dmc: "distinct (map messageId c)" using ch by (rule isChain_distinct)
  have "mset (map messageId es) = mset (map messageId c)" using perm by (metis mset_map)
  then have dme: "distinct (map messageId es)" using dmc by (metis mset_eq_imp_distinct_iff)
  then have de: "distinct es" by (simp add: distinct_map)
  have inj: "i = j" if "i < ?N" "j < ?N" "messageId (c ! i) = messageId (c ! j)" for i j
  proof -
    from that have "map messageId c ! i = map messageId c ! j"
      and "i < length (map messageId c)" and "j < length (map messageId c)" by simp_all
    with dmc show ?thesis by (simp only: nth_eq_iff_index_eq)
  qed
  have m0: "?m0 (messageId (c ! i)) = Some (newNode (c ! i))" if "i < ?N" for i
  proof -
    from that have "c ! i \<in> set es" using sets by simp
    with dme show ?thesis by (rule indexEmails_distinct)
  qed
  have root: "\<not> linked ?m0 (c ! 0)"
    using isChain_root [OF ch] sets by (auto simp: linked_def indexEmails_None)
  have succ: "linked ?m0 (c ! Suc i)" if "Suc i < ?N" for i
  proof -
    from that have "i < ?N" by simp
    from m0 [OF this] isChain_nth [OF ch that] show ?thesis by (simp add: linked_def)
  qed
  have nth_cases: "\<exists>j < ?N. x = c ! j" if "x \<in> set es" for x
    using that sets by (auto simp: in_set_conv_nth)
  have roots: "filter (\<lambda>e. \<not> linked ?m0 e) es = [c ! 0]"
  proof (rule filter_singleton [OF de])
    show "c ! 0 \<in> set es" using pos sets by simp
    show "\<not> linked ?m0 (c ! 0)" by (rule root)
    fix x assume x: "x \<in> set es" "\<not> linked ?m0 x"
    from nth_cases [OF x(1)] obtain j where j: "j < ?N" "x = c ! j" by blast
    show "x = c ! 0"
    proof (cases j)
      case 0
      with j show ?thesis by simp
    next
      case (Suc j')
      with j succ [of j'] x(2) show ?thesis by simp
    qed
  qed
  have parent: "j = Suc i"
    if "i < ?N" "j < ?N" "linked ?m0 (c ! j)" "inReplyTo (c ! j) = messageId (c ! i)" for i j
  proof (cases j)
    case 0
    with that(3) root show ?thesis by simp
  next
    case (Suc j')
    with that(2) have j': "Suc j' < ?N" by simp
    from isChain_nth(1) [OF ch j'] that(4) Suc have "messageId (c ! j') = messageId (c ! i)" by simp
    with inj [of j' i] j' that(1) have "j' = i" by simp
    with Suc show ?thesis by simp
  qed
  have kids: "filter (\<lambda>e. linked ?m0 e \<and> inReplyTo e = messageId (c ! i)) es =
      (if Suc i < ?N then [c ! Suc i] else [])" if i: "i < ?N" for i
  proof (cases "Suc i < ?N")
    case True
    have "filter (\<lambda>e. linked ?m0 e \<and> inReplyTo e = messageId (c ! i)) es = [c ! Suc i]"
    proof (rule filter_singleton [OF de])
      show "c ! Suc i \<in> set es" using True sets by simp
      show "linked ?m0 (c ! Suc i) \<and> inReplyTo (c ! Suc i) = messageId (c ! i)"
        using succ [OF True] isChain_nth(1) [OF ch True] by simp
      fix x assume x: "x \<in> set es" "linked ?m0 x \<and> inReplyTo x = messageId (c ! i)"
      from nth_cases [OF x(1)] obtain j where j: "j < ?N" "x = c ! j" by blast
      with parent [OF i j(1)] x(2) show "x = c ! Suc i" by simp
    qed
    with True show ?thesis by simp
  next
    case False
    have "filter (\<lambda>e. linked ?m0 e \<and> inReplyTo e = messageId (c ! i)) es = []"
    proof (rule ccontr)
      assume "filter (\<lambda>e. linked ?m0 e \<and> inReplyTo e = messageId (c ! i)) es \<noteq> []"
      then obtain x where x: "x \<in> set es" "linked ?m0 x" "inReplyTo x = messageId (c ! i)"
        by (auto simp: filter_empty_conv)
      from nth_cases [OF x(1)] obtain j where j: "j < ?N" "x = c ! j" by blast
      with parent [OF i j(1)] x(2,3) have "j = Suc i" by simp
      with j(1) False show False by simp
    qed
    with False show ?thesis by simp
  qed
  from run have m: "m = (\<lambda>k. map_option
        (appendChildren (map messageId (filter (\<lambda>e. linked ?m0 e \<and> inReplyTo e = k) es)))
        (?m0 k))"
    and rs: "rs = [messageId (c ! 0)]"
    by (simp_all add: foldl_linkStep roots)
  have at: "m (messageId (c ! i)) =
      Some (appendChildren (if Suc i < ?N then [messageId (c ! Suc i)] else []) (newNode (c ! i)))"
    if "i < ?N" for i
    using that by (simp add: m m0 kids)
  have unf: "unfold n m (messageId (c ! i)) = Some (TNode (c ! i) (chainTree (drop (Suc i) c)))"
    if "i < ?N" "?N - i \<le> n" for n i
    using that
  proof (induction n arbitrary: i)
    case 0
    then show ?case by simp
  next
    case (Suc n)
    show ?case
    proof (cases "Suc i < ?N")
      case True
      with Suc.prems have "?N - Suc i \<le> n" by simp
      from Suc.IH [OF True this]
      have "unfold n m (messageId (c ! Suc i)) =
          Some (TNode (c ! Suc i) (chainTree (drop (Suc (Suc i)) c)))" .
      moreover have "drop (Suc i) c = c ! Suc i # drop (Suc (Suc i)) c"
        using True by (simp add: Cons_nth_drop_Suc)
      ultimately show ?thesis using at [OF Suc.prems(1)] True by simp
    next
      case False
      then have "drop (Suc i) c = []" by simp
      then show ?thesis using at [OF Suc.prems(1)] False by simp
    qed
  qed
  have "c = c ! 0 # drop (Suc 0) c" using pos by (cases c) simp_all
  then have "chainTree c = [TNode (c ! 0) (chainTree (drop (Suc 0) c))]"
    by (metis chainTree.simps(2))
  moreover have "unfold ?N m (messageId (c ! 0)) = Some (TNode (c ! 0) (chainTree (drop (Suc 0) c)))"
    using pos by (intro unf) simp_all
  ultimately show ?thesis by (simp add: unfoldRoots_def rs len)
qed

text \<open>
  C8 as stated fails: threads are keyed by \<open>threadId\<close> alone. A reply chain of
  three records without thread ids resolves to no thread at all, and the same
  chain with two thread ids resolves to two threads of depth 2 and 1.
\<close>

theorem chain_thread_ids_counterexample:
  "isChain chainUnkeyed \<and> length chainUnkeyed = 3 \<and> groupByThreads chainUnkeyed = [] \<and>
   isChain chainSplit \<and> length chainSplit = 3 \<and>
   map fst (groupByThreads chainSplit) = [''T1'', ''T2''] \<and>
   statOf maxDepth (generateThreadStats (groupByThreads chainSplit) ''T1'') = Some 2 \<and>
   statOf maxDepth (generateThreadStats (groupByThreads chainSplit) ''T2'') = Some 1"
  by code_simp

text \<open>
  C8, as the code has it. A batch whose records all carry one non-empty thread
  id and form one linear reply chain of \<open>N\<close> records, in whatever order the batch
  lists them, resolves to a thread whose statistics are \<open>maxDepth = N\<close> (the root
  counts as depth 1) and \<open>branchCount = 0\<close>.
\<close>

theorem linear_chain_stats:
  assumes "isChain c" and "mset batch = mset c"
    and "\<forall>e \<in> set c. threadId e = Some tid" and "tid \<noteq> []"
  shows "\<exists>st. generateThreadStats (groupByThreads batch) tid = Inr (Some st) \<and>
           maxDepth st = length c \<and> branchCount st = 0"
proof -
  let ?es = "sortBy compareDateSent batch"
  have sets: "set batch = set c" using assms(2) by (rule mset_eq_setD)
  with assms(3) have all: "filter (\<lambda>e. threadId e = Some tid) batch = batch" by simp
  have "c \<noteq> []" using assms(1) by (rule isChain_nonempty)
  with sets have ne: "batch \<noteq> []" by auto
  have get: "threadsGet (groupByThreads batch) tid = Some ?es"
    using ne assms(4) by (simp add: threadsGet_groupByThreads all)
  have perm: "mset ?es = mset c" using assms(2) by (simp add: mset_sortBy)
  then have "length ?es = length c" by (rule mset_eq_length)
  with \<open>c \<noteq> []\<close> have ne': "?es \<noteq> []" by auto
  obtain m rs where run: "foldl linkStep (indexEmails ?es, []) ?es = (m, rs)"
    by (cases "foldl linkStep (indexEmails ?es, []) ?es")
  have roots: "unfoldRoots (length ?es) m rs = Some (chainTree c)"
    using assms(1) perm run by (rule chain_unfolds)
  from ne' obtain x xs where cons: "?es = x # xs" by (cases ?es) auto
  have tree: "buildThreadTree (groupByThreads batch) tid =
      Inr (Some \<lparr>threadId_t = tid, roots_t = rs, nodes_t = m, totalEmails = length ?es,
        participants = getUniqueParticipants ?es,
        dateRange = (dateSent (hd ?es), dateSent (last ?es))\<rparr>)"
    unfolding buildThreadTree_def get using run cons by simp
  show ?thesis
    unfolding generateThreadStats_def tree
    by (simp add: roots Let_def calculateMaxDepth_chainTree countBranches_chainTree)
qed

text \<open>C8 on a chain of three records listed out of order.\<close>

theorem linear_chain_stats_witness:
  "isChain chain3 \<and> mset chain3Shuffled = mset chain3 \<and>
   map threadId chain3 = [Some ''T1'', Some ''T1'', Some ''T1''] \<and> ''T1'' \<noteq> [] \<and>
   (\<exists>st. generateThreadStats (groupByThreads chain3Shuffled) ''T1'' = Inr (Some st) \<and>
           maxDepth st = 3 \<and> branchCount st = 0)"
proof -
  have h1: "isChain chain3" by (simp add: isChain_def chain3_def mkEmail_def)
  have h2: "mset chain3Shuffled = mset chain3" by (simp add: chain3_def chain3Shuffled_def)
  have h3: "\<forall>e \<in> set chain3. threadId e = Some ''T1''" by (simp add: chain3_def mkEmail_def)
  have h4: "''T1'' \<noteq> []" by simp
  have len: "length chain3 = 3" by (simp add: chain3_def)
  have ids: "map threadId chain3 = [Some ''T1'', Some ''T1'', Some ''T1'']"
    by (simp add: chain3_def mkEmail_def)
  from linear_chain_stats [OF h1 h2 h3 h4] h1 h2 h4 len ids show ?thesis by simp
qed

section \<open>Subject normalisation removes one marker\<close>

lemma canonical_chars:
  "canonicalize CHR ''R'' = CHR ''R''" "canonicalize CHR ''E'' = CHR ''E''"
  "canonicalize CHR ''F'' = CHR ''F''" "canonicalize CHR ''W'' = CHR ''W''"
  "canonicalize CHR ''e'' = CHR ''E''" "canonicalize CHR ''w'' = CHR ''W''"
  "canonicalize CHR ''d'' = CHR ''D''" "canonicalize CHR '':'' = CHR '':''"
  by code_simp+

lemma trim_dropWhile: "trim (dropWhile isSpace s) = trim s"
  by (simp add: trim_def)

lemma literalAt_eq:
  "literalAt lit s =
     (length lit \<le> length s \<and> map canonicalize (take (length lit) s) = map canonicalize lit)"
  by (induction lit s rule: literalAt.induct) auto

lemma literalAt_append:
  "length lit \<le> length mk \<Longrightarrow>
     literalAt lit (mk @ rest) = (take (length lit) (map canonicalize mk) = map canonicalize lit)"
  by (simp add: literalAt_eq take_map)

lemma markerLength_marker:
  assumes "map canonicalize mk \<in> {''RE:'', ''FW:'', ''FWD:''}"
  shows "markerLength (mk @ rest) = Some (length mk)"
proof -
  from assms consider (re) "map canonicalize mk = ''RE:''" | (fw) "map canonicalize mk = ''FW:''"
    | (fwd) "map canonicalize mk = ''FWD:''" by auto
  then show ?thesis
  proof cases
    case re
    then have "length (map canonicalize mk) = 3" by simp
    then have len: "length mk = 3" by simp
    have "literalAt ''RE:'' (mk @ rest)"
      using len by (simp add: literalAt_append re canonical_chars)
    then show ?thesis by (simp add: markerLength_def len)
  next
    case fw
    then have "length (map canonicalize mk) = 3" by simp
    then have len: "length mk = 3" by simp
    have "\<not> literalAt ''RE:'' (mk @ rest)"
      using len by (simp add: literalAt_append fw canonical_chars)
    moreover have "literalAt ''FW:'' (mk @ rest)"
      using len by (simp add: literalAt_append fw canonical_chars)
    ultimately show ?thesis by (simp add: markerLength_def len)
  next
    case fwd
    then have "length (map canonicalize mk) = 4" by simp
    then have len: "length mk = 4" by simp
    have "\<not> literalAt ''RE:'' (mk @ rest)"
      using len by (simp add: literalAt_append fwd canonical_chars)
    moreover have "\<not> literalAt ''FW:'' (mk @ rest)"
      using len by (simp add: literalAt_append fwd canonical_chars)
    moreover have "literalAt ''Fwd:'' (mk @ rest)"
      using len by (simp add: literalAt_append fwd canonical_chars)
    ultimately show ?thesis by (simp add: markerLength_def len)
  qed
qed

text \<open>
  C6 as stated fails: of the three markers of \<open>Re: Re: Fwd: Budget\<close> only the
  first is removed.
\<close>

theorem repeated_markers_counterexample:
  "normalizeSubject (Some ''Re: Re: Fwd: Budget'') = ''re: fwd: budget''"
  by code_simp

text \<open>
  C6, as the code has it. One leading marker (\<open>RE:\<close>, \<open>FW:\<close> or \<open>Fwd:\<close> in any
  letter case) is removed, and what follows it is trimmed and lower-cased as it
  is, further markers included; a subject without a leading marker is trimmed and
  lower-cased.
\<close>

theorem normalizeSubject_one_marker:
  "(map canonicalize mk \<in> {''RE:'', ''FW:'', ''FWD:''} \<longrightarrow>
      normalizeSubject (Some (mk @ rest)) = toLowerCase (trim rest)) \<and>
   (markerLength s = None \<longrightarrow> normalizeSubject (Some s) = toLowerCase (trim s))"
proof (intro conjI impI)
  assume mk: "map canonicalize mk \<in> {''RE:'', ''FW:'', ''FWD:''}"
  then have "mk \<noteq> []" by auto
  with markerLength_marker [OF mk, of rest]
  show "normalizeSubject (Some (mk @ rest)) = toLowerCase (trim rest)"
    by (simp add: normalizeSubject_def replaceMarker_def trim_dropWhile)
next
  assume "markerLength s = None"
  then show "normalizeSubject (Some s) = toLowerCase (trim s)"
    by (simp add: normalizeSubject_def replaceMarker_def trim_def toLowerCase_def)
qed

text \<open>C6 on \<open>re: Fwd: Budget\<close>, where the second marker stays, and on a subject without marker.\<close>

theorem normalizeSubject_one_marker_witness:
  "map canonicalize ''re:'' \<in> {''RE:'', ''FW:'', ''FWD:''} \<and>
   normalizeSubject (Some (''re:'' @ '' Fwd: Budget '')) = ''fwd: budget'' \<and>
   markerLength ''Budget'' = None \<and> normalizeSubject (Some ''Budget'') = ''budget''"
proof -
  have h1: "map canonicalize ''re:'' \<in> {''RE:'', ''FW:'', ''FWD:''}" by code_simp
  have h2: "markerLength ''Budget'' = None" by code_simp
  have v1: "toLowerCase (trim '' Fwd: Budget '') = ''fwd: budget''" by code_simp
  have v2: "toLowerCase (trim ''Budget'') = ''budget''" by code_simp
  note t = normalizeSubject_one_marker [of "''re:''" "'' Fwd: Budget ''" "''Budget''"]
  from t h1 have "normalizeSubject (Some (''re:'' @ '' Fwd: Budget '')) =
      toLowerCase (trim '' Fwd: Budget '')" by blast
  then have a: "normalizeSubject (Some (''re:'' @ '' Fwd: Budget '')) = ''fwd: budget''"
    using v1 by (rule trans)
  from t h2 have "normalizeSubject (Some ''Budget'') = toLowerCase (trim ''Budget'')" by blast
  then have b: "normalizeSubject (Some ''Budget'') = ''budget''" using v2 by (rule trans)
  from h1 a h2 b show ?thesis by blast
qed

section \<open>Case folding on the letters\<close>

lemma canonicalize_letters:
  "map canonicalize ''abcdefghijklmnopqrstuvwxyz'' = ''ABCDEFGHIJKLMNOPQRSTUVWXYZ''"
  "map canonicalize ''ABCDEFGHIJKLMNOPQRSTUVWXYZ'' = ''ABCDEFGHIJKLMNOPQRSTUVWXYZ''"
  "map canonicalize ''0123456789 <>@:;,.-_[]{}|~`^'' = ''0123456789 <>@:;,.-_[]{}|~`^''"
  by code_simp+

lemma lowerChar_letters:
  "toLowerCase ''ABCDEFGHIJKLMNOPQRSTUVWXYZ'' = ''abcdefghijklmnopqrstuvwxyz''"
  "toLowerCase ''abcdefghijklmnopqrstuvwxyz'' = ''abcdefghijklmnopqrstuvwxyz''"
  "toLowerCase ''0123456789 <>@:;,.-_[]{}|~`^'' = ''0123456789 <>@:;,.-_[]{}|~`^''"
  by code_simp+

section \<open>Loading: what the processor holds afterwards\<close>

lemma fst_foldl_registerEmail: "fst (foldl registerEmail st xs) = fst st @ xs"
  by (induction xs arbitrary: st) (simp_all add: registerEmail_def split_beta)

lemma index_untouched:
  "\<forall>x \<in> set ys. messageId x \<noteq> Some k \<Longrightarrow> snd (foldl registerEmail st ys) k = snd st k"
proof (induction ys arbitrary: st)
  case Nil
  show ?case by simp
next
  case (Cons y ys)
  then have "snd (foldl registerEmail (registerEmail st y) ys) k = snd (registerEmail st y) k"
    by simp
  moreover have "snd (registerEmail st y) k = snd st k"
    using Cons.prems by (cases "messageId y") (auto simp: registerEmail_def split_beta)
  ultimately show ?case by simp
qed

lemma index_last:
  assumes "messageId e = Some k" and "k \<noteq> []" and "\<forall>x \<in> set ys. messageId x \<noteq> Some k"
  shows "snd (foldl registerEmail st (xs @ e # ys)) k = Some e"
proof -
  have "snd (foldl registerEmail st (xs @ e # ys)) k =
      snd (registerEmail (foldl registerEmail st xs) e) k"
    using index_untouched [OF assms(3)] by simp
  also have "\<dots> = Some e" using assms(1,2) by (simp add: registerEmail_def split_beta)
  finally show ?thesis .
qed

lemma getAllThreadableEmails_fields:
  "emails_p (getAllThreadableEmails parse now limit docs) =
     sortBy compareDateSent (map (solrEmail parse now) docs)"
  "messageIdToEmail (getAllThreadableEmails parse now limit docs) =
     snd (foldl registerEmail ([], Map.empty) (map (solrEmail parse now) docs))"
  "console_p (getAllThreadableEmails parse now limit docs) = [Getting limit, Loaded (length docs)]"
  by (simp_all add: getAllThreadableEmails_def split_beta fst_foldl_registerEmail)

lemma indexEmails_last:
  assumes "messageId e = k" and "k \<notin> messageId ` set ys"
  shows "indexEmails (xs @ e # ys) k = Some (newNode e)"
  using assms(2)
proof (induction ys rule: rev_induct)
  case Nil
  show ?case using assms(1) indexEmails_snoc [of xs e] by simp
next
  case (snoc y ys)
  then have "indexEmails (xs @ e # ys) k = Some (newNode e)" and "messageId y \<noteq> k" by auto
  then show ?case using indexEmails_snoc [of "xs @ e # ys" y] by simp
qed

lemma dateSent_solrEmail:
  "dateSent (solrEmail parse now d) =
     (case timestampText d of Some stamp \<Rightarrow> parse stamp | None \<Rightarrow> Some now)"
  by (cases "email_datesent d")
     (auto simp: solrEmail_def timestampText_def extractEmailHeaders_def noHeaders_def Let_def
        newDate_def split: option.splits)

section \<open>Duplicate identifiers\<close>

lemma solrEmail_docFirst:
  "solrEmail fixtureParse now docFirst =
     \<lparr>messageId = Some ''m@x'', inReplyTo = None, references = Some [], threadId = None,
      isForward = False, isExternal = False, id_f = Some ''1'', from_f = Some ''Unknown'',
      to_f = [], cc = [], subject = Some ''First'', normalizedSubject = ''first'',
      dateSent = Some 1704067200000,
      fullText = Some (''Message-ID: <m@x>'' @ [CHR 0x0D, CHR 0x0A] @ ''Subject: First''
        @ [CHR 0x0D, CHR 0x0A] @ ''Date: 2024-01-01'')\<rparr>"
  by code_simp

lemma solrEmail_docSecond:
  "solrEmail fixtureParse now docSecond =
     \<lparr>messageId = Some ''m@x'', inReplyTo = None, references = Some [], threadId = None,
      isForward = False, isExternal = False, id_f = Some ''2'', from_f = Some ''Unknown'',
      to_f = [], cc = [], subject = Some ''Second'', normalizedSubject = ''second'',
      dateSent = Some 1704153600000,
      fullText = Some (''Message-ID: <m@x>'' @ [CHR 0x0D, CHR 0x0A] @ ''Subject: Second''
        @ [CHR 0x0D, CHR 0x0A] @ ''Date: 2024-01-02'')\<rparr>"
  by code_simp

lemma solrEmail_docBadDate:
  "solrEmail fixtureParse now docBadDate =
     \<lparr>messageId = Some ''q@x'', inReplyTo = None, references = Some [], threadId = None,
      isForward = False, isExternal = False, id_f = Some ''7'', from_f = Some ''Unknown'',
      to_f = [], cc = [], subject = Some ''Plan'', normalizedSubject = ''plan'',
      dateSent = None,
      fullText = Some (''Message-ID: <q@x>'' @ [CHR 0x0D, CHR 0x0A] @ ''Subject: Plan''
        @ [CHR 0x0D, CHR 0x0A] @ ''Date: someday soon'')\<rparr>"
  by code_simp

text \<open>
  C5 as stated fails: after two documents with the same \<open>Message-ID\<close> the index
  holds the second one, and the console shows the two lines of every load.
\<close>

theorem first_seen_counterexample:
  "map_option id_f (messageIdToEmail
      (getAllThreadableEmails fixtureParse 0 100 [docFirst, docSecond]) ''m@x'') = Some (Some ''2'') \<and>
   console_p (getAllThreadableEmails fixtureParse 0 100 [docFirst, docSecond]) =
     [Getting 100, Loaded 2]"
  by (simp add: getAllThreadableEmails_def registerEmail_def solrEmail_docFirst solrEmail_docSecond)

text \<open>
  C5, as the code has it. Both indexes are maps written with \<open>set\<close>: of the
  records that carry one identifier the last registered is the one the index
  holds afterwards. That is so for \<open>messageIdToEmail\<close> after loading and for the
  \<open>emailMap\<close> of \<open>buildThreadTree\<close>; loading writes nothing about a duplicate.
\<close>

theorem duplicate_messageId_last_wins:
  "(messageId (solrEmail parse now d1) = Some k \<and> messageId (solrEmail parse now d2) = Some k \<and>
    k \<noteq> [] \<and> (\<forall>d \<in> set post. messageId (solrEmail parse now d) \<noteq> Some k) \<longrightarrow>
      messageIdToEmail (getAllThreadableEmails parse now limit (pre @ d1 # between @ d2 # post)) k
        = Some (solrEmail parse now d2) \<and>
      solrEmail parse now d1
        \<in> set (emails_p (getAllThreadableEmails parse now limit (pre @ d1 # between @ d2 # post))) \<and>
      solrEmail parse now d2
        \<in> set (emails_p (getAllThreadableEmails parse now limit (pre @ d1 # between @ d2 # post))) \<and>
      console_p (getAllThreadableEmails parse now limit (pre @ d1 # between @ d2 # post))
        = [Getting limit, Loaded (length (pre @ d1 # between @ d2 # post))]) \<and>
   (messageId e1 = messageId e2 \<and> messageId e2 \<notin> messageId ` set es3 \<longrightarrow>
      indexEmails (es1 @ e1 # es2 @ e2 # es3) (messageId e2) = Some (newNode e2))"
proof (intro conjI impI)
  assume a: "messageId (solrEmail parse now d1) = Some k \<and> messageId (solrEmail parse now d2) = Some k \<and>
    k \<noteq> [] \<and> (\<forall>d \<in> set post. messageId (solrEmail parse now d) \<noteq> Some k)"
  let ?f = "solrEmail parse now"
  have eq: "map ?f (pre @ d1 # between @ d2 # post) = (map ?f (pre @ d1 # between)) @ ?f d2 # map ?f post"
    by simp
  have "snd (foldl registerEmail ([], Map.empty) ((map ?f (pre @ d1 # between)) @ ?f d2 # map ?f post)) k
      = Some (?f d2)"
    by (rule index_last) (use a in simp_all)
  then show "messageIdToEmail
      (getAllThreadableEmails parse now limit (pre @ d1 # between @ d2 # post)) k = Some (?f d2)"
    by (simp only: getAllThreadableEmails_fields eq)
  show "console_p (getAllThreadableEmails parse now limit (pre @ d1 # between @ d2 # post))
        = [Getting limit, Loaded (length (pre @ d1 # between @ d2 # post))]"
    by (rule getAllThreadableEmails_fields)
  show "?f d1 \<in> set (emails_p (getAllThreadableEmails parse now limit (pre @ d1 # between @ d2 # post)))"
    by (simp only: getAllThreadableEmails_fields set_sortBy) simp
  show "?f d2 \<in> set (emails_p (getAllThreadableEmails parse now limit (pre @ d1 # between @ d2 # post)))"
    by (simp only: getAllThreadableEmails_fields set_sortBy) simp
next
  assume b: "messageId e1 = messageId e2 \<and> messageId e2 \<notin> messageId ` set es3"
  have "indexEmails ((es1 @ e1 # es2) @ e2 # es3) (messageId e2) = Some (newNode e2)"
    using b by (intro indexEmails_last) simp_all
  then show "indexEmails (es1 @ e1 # es2 @ e2 # es3) (messageId e2) = Some (newNode e2)" by simp
qed

lemma messageId_docs:
  "messageId (solrEmail fixtureParse 0 docFirst) = Some ''m@x''"
  "messageId (solrEmail fixtureParse 0 docSecond) = Some ''m@x''"
  by (simp_all add: solrEmail_docFirst solrEmail_docSecond)

text \<open>C5 on the two documents that share an identifier.\<close>

theorem duplicate_messageId_last_wins_witness:
  "messageId (solrEmail fixtureParse 0 docFirst) = Some ''m@x'' \<and>
   messageId (solrEmail fixtureParse 0 docSecond) = Some ''m@x'' \<and>
   messageIdToEmail (getAllThreadableEmails fixtureParse 0 100 ([] @ docFirst # [] @ docSecond # []))
     ''m@x'' = Some (solrEmail fixtureParse 0 docSecond) \<and>
   indexEmails ([] @ solrEmail fixtureParse 0 docFirst # [] @ solrEmail fixtureParse 0 docSecond # [])
     (Some ''m@x'') = Some (newNode (solrEmail fixtureParse 0 docSecond))"
proof -
  note t = duplicate_messageId_last_wins [of fixtureParse 0 docFirst "''m@x''" docSecond "[]"
      100 "[]" "[]" "solrEmail fixtureParse 0 docFirst" "solrEmail fixtureParse 0 docSecond" "[]" "[]" "[]"]
  have ne: "''m@x'' \<noteq> []" by simp
  have post: "\<forall>d \<in> set []. messageId (solrEmail fixtureParse 0 d) \<noteq> Some ''m@x''" by simp
  have same: "messageId (solrEmail fixtureParse 0 docFirst) = messageId (solrEmail fixtureParse 0 docSecond)"
    by (simp only: messageId_docs)
  have notin: "messageId (solrEmail fixtureParse 0 docSecond) \<notin> messageId ` set []" by simp
  from t messageId_docs ne post
  have 1: "messageIdToEmail (getAllThreadableEmails fixtureParse 0 100 ([] @ docFirst # [] @ docSecond # []))
     ''m@x'' = Some (solrEmail fixtureParse 0 docSecond)" by blast
  from t same notin
  have "indexEmails ([] @ solrEmail fixtureParse 0 docFirst # [] @ solrEmail fixtureParse 0 docSecond # [])
     (messageId (solrEmail fixtureParse 0 docSecond)) = Some (newNode (solrEmail fixtureParse 0 docSecond))"
    by blast
  then have 2: "indexEmails ([] @ solrEmail fixtureParse 0 docFirst # [] @ solrEmail fixtureParse 0 docSecond # [])
     (Some ''m@x'') = Some (newNode (solrEmail fixtureParse 0 docSecond))"
    by (simp only: messageId_docs)
  from messageId_docs 1 2 show ?thesis by blast
qed

section \<open>Unreadable timestamps\<close>

text \<open>
  C7 as stated fails: a document whose \<open>Date:\<close> line cannot be read is
  loaded like any other, is part of \<open>this.emails\<close>, and gets its thread; the
  console shows the two lines of every load.
\<close>

theorem malformed_timestamp_counterexample:
  "timestampText docBadDate = Some ''someday soon'' \<and> fixtureParse ''someday soon'' = None \<and>
   map id_f (emails_p (getAllThreadableEmails fixtureParse 99 100 [docBadDate])) = [Some ''7''] \<and>
   console_p (getAllThreadableEmails fixtureParse 99 100 [docBadDate]) = [Getting 100, Loaded 1] \<and>
   membership (buildMessageIdOnlyThreads (getAllThreadableEmails fixtureParse 99 100 [docBadDate]))
     = Some [(Some ''q@x'', [Some ''7''])]"
proof -
  have "timestampText docBadDate = Some ''someday soon''" by code_simp
  moreover have "fixtureParse ''someday soon'' = None" by code_simp
  ultimately show ?thesis
    by (simp add: getAllThreadableEmails_def registerEmail_def solrEmail_docBadDate sortBy_def
        buildMessageIdOnlyThreads_def messageIdOnlyStep_def hasParent_def threadKey_def orStr_def
        membership_def finishThreads_def joinThread_def newThread_def setAdd_def)
qed

text \<open>
  C7, as the code has it. A document whose timestamp text the date parser
  cannot read is kept and not reported: its email is in \<open>this.emails\<close>, which
  holds one email per document, and the console shows the two lines of every
  load, none about the document.
\<close>

theorem malformed_timestamp_kept:
  assumes "d \<in> set docs" and "timestampText d = Some stamp" and "parse stamp = None"
  shows "solrEmail parse now d \<in> set (emails_p (getAllThreadableEmails parse now limit docs)) \<and>
         length (emails_p (getAllThreadableEmails parse now limit docs)) = length docs \<and>
         console_p (getAllThreadableEmails parse now limit docs) = [Getting limit, Loaded (length docs)]"
proof -
  have "mset (emails_p (getAllThreadableEmails parse now limit docs)) = mset (map (solrEmail parse now) docs)"
    by (simp only: getAllThreadableEmails_fields mset_sortBy)
  then have "length (emails_p (getAllThreadableEmails parse now limit docs)) = length (map (solrEmail parse now) docs)"
    by (rule mset_eq_length)
  moreover have "solrEmail parse now d \<in> set (emails_p (getAllThreadableEmails parse now limit docs))"
    using assms(1) by (simp only: getAllThreadableEmails_fields set_sortBy) simp
  ultimately show ?thesis by (simp add: getAllThreadableEmails_fields)
qed

text \<open>C7 on the document with the unreadable date.\<close>

theorem malformed_timestamp_kept_witness:
  "docBadDate \<in> set [docBadDate] \<and> timestampText docBadDate = Some ''someday soon'' \<and>
   fixtureParse ''someday soon'' = None \<and>
   solrEmail fixtureParse 99 docBadDate
     \<in> set (emails_p (getAllThreadableEmails fixtureParse 99 100 [docBadDate])) \<and>
   console_p (getAllThreadableEmails fixtureParse 99 100 [docBadDate]) = [Getting 100, Loaded 1]"
proof -
  have h1: "docBadDate \<in> set [docBadDate]" by simp
  have h2: "timestampText docBadDate = Some ''someday soon''" by code_simp
  have h3: "fixtureParse ''someday soon'' = None" by code_simp
  from malformed_timestamp_kept [where parse = fixtureParse and d = docBadDate
      and docs = "[docBadDate]" and stamp = "''someday soon''" and now = "99" and limit = "100"] h1 h2 h3
  show ?thesis by simp
qed

section \<open>Mutual parents\<close>

lemma findRoot_cycle:
  assumes "inReplyTo X = Some ky" and "ky \<noteq> []" and "index ky = Some Y"
    and "inReplyTo Y = Some kx" and "kx \<noteq> []" and "index kx = Some X"
  shows "findRoot index X = None"
proof (rule ccontr)
  assume "findRoot index X \<noteq> None"
  then obtain r where r: "findRoot index X = Some r" by auto
  have "idx = index \<longrightarrow> cur \<noteq> X \<and> cur \<noteq> Y" if "findRoot idx cur = Some y" for idx cur y
    using that
  proof (rule findRoot.raw_induct
      [rotated, where P = "\<lambda>idx cur y. idx = index \<longrightarrow> cur \<noteq> X \<and> cur \<noteq> Y"])
    fix walk :: "(string \<rightharpoonup> email) \<Rightarrow> email \<Rightarrow> email option" and idx' cur' y'
    assume IH: "\<And>i c y. walk i c = Some y \<Longrightarrow> i = index \<longrightarrow> c \<noteq> X \<and> c \<noteq> Y"
      and eq: "(if truthy (inReplyTo cur') \<and> idx' (the (inReplyTo cur')) \<noteq> None
                then walk idx' (the (idx' (the (inReplyTo cur')))) else Some cur') = Some y'"
    show "idx' = index \<longrightarrow> cur' \<noteq> X \<and> cur' \<noteq> Y"
    proof (intro impI conjI notI)
      assume "idx' = index" and "cur' = X"
      with eq assms have "walk index Y = Some y'" by simp
      from IH [OF this] show False by simp
    next
      assume "idx' = index" and "cur' = Y"
      with eq assms have "walk index X = Some y'" by simp
      from IH [OF this] show False by simp
    qed
  qed
  with r show False by blast
qed

lemma solrEmail_docX:
  "solrEmail fixtureParse 0 docX =
     \<lparr>messageId = Some ''x@c'', inReplyTo = Some ''y@c'', references = Some [], threadId = None,
      isForward = False, isExternal = False, id_f = Some ''8'', from_f = Some ''Unknown'',
      to_f = [''<y@c>''], cc = [], subject = Some ''No Subject'', normalizedSubject = [],
      dateSent = Some 0,
      fullText = Some (''Message-ID: <x@c>'' @ [CHR 0x0D, CHR 0x0A] @ ''In-Reply-To: <y@c>'')\<rparr>"
  by code_simp

lemma solrEmail_docY:
  "solrEmail fixtureParse 0 docY =
     \<lparr>messageId = Some ''y@c'', inReplyTo = Some ''x@c'', references = Some [], threadId = None,
      isForward = False, isExternal = False, id_f = Some ''9'', from_f = Some ''Unknown'',
      to_f = [''<x@c>''], cc = [], subject = Some ''No Subject'', normalizedSubject = [],
      dateSent = Some 0,
      fullText = Some (''Message-ID: <y@c>'' @ [CHR 0x0D, CHR 0x0A] @ ''In-Reply-To: <x@c>'')\<rparr>"
  by code_simp

lemma loadEmail_rowX:
  "loadEmail fixtureParse rowX =
     \<lparr>messageId = Some ''<x@c>'', inReplyTo = Some ''<y@c>'', references = Some [''<y@c>''],
      threadId = Some ''T1'', isForward = False, isExternal = False, id_f = Some ''DOC-8'',
      from_f = Some ''ann@x'', to_f = [''bob@x''], cc = [], subject = Some ''Hello'',
      normalizedSubject = [], dateSent = Some 1704067200000, fullText = None\<rparr>"
  by code_simp

lemma loadEmail_rowY:
  "loadEmail fixtureParse rowY =
     \<lparr>messageId = Some ''<y@c>'', inReplyTo = Some ''<x@c>'', references = Some [''<x@c>''],
      threadId = Some ''T1'', isForward = False, isExternal = False, id_f = Some ''DOC-9'',
      from_f = Some ''ann@x'', to_f = [''bob@x''], cc = [], subject = Some ''Hello'',
      normalizedSubject = [], dateSent = Some 1704153600000, fullText = None\<rparr>"
  by code_simp

lemma cycle_processor:
  "getAllThreadableEmails fixtureParse 0 100 [docX, docY] =
     \<lparr>emails_p = [solrEmail fixtureParse 0 docX, solrEmail fixtureParse 0 docY],
      messageIdToEmail = [''x@c'' \<mapsto> solrEmail fixtureParse 0 docX,
                          ''y@c'' \<mapsto> solrEmail fixtureParse 0 docY],
      console_p = [Getting 100, Loaded 2]\<rparr>"
proof -
  have "messageId (solrEmail fixtureParse 0 docX) = Some ''x@c''"
    "messageId (solrEmail fixtureParse 0 docY) = Some ''y@c''"
    "dateSent (solrEmail fixtureParse 0 docX) = Some 0"
    "dateSent (solrEmail fixtureParse 0 docY) = Some 0"
    by (simp_all add: solrEmail_docX solrEmail_docY)
  then show ?thesis
    by (simp add: getAllThreadableEmails_def registerEmail_def sortBy_def compareDateSent_def)
qed

lemma cycle_walk: "findRoot (messageIdToEmail (getAllThreadableEmails fixtureParse 0 100 [docX, docY]))
     (solrEmail fixtureParse 0 docX) = None"
  by (rule findRoot_cycle [where ky = "''y@c''" and kx = "''x@c''" and Y = "solrEmail fixtureParse 0 docY"])
     (simp_all add: cycle_processor, simp_all add: solrEmail_docX solrEmail_docY)

lemma cycle_threads:
  "groupByThreads (loadEmailsFromFile fixtureParse [rowX, rowY]) =
     [(''T1'', [loadEmail fixtureParse rowX, loadEmail fixtureParse rowY])]"
proof -
  have "threadId (loadEmail fixtureParse rowX) = Some ''T1''"
    "threadId (loadEmail fixtureParse rowY) = Some ''T1''"
    "dateSent (loadEmail fixtureParse rowX) = Some 1704067200000"
    "dateSent (loadEmail fixtureParse rowY) = Some 1704153600000"
    by (simp_all add: loadEmail_rowX loadEmail_rowY)
  then show ?thesis
    by (simp add: groupByThreads_def loadEmailsFromFile_def groupStep_def sortBy_def compareDateSent_def)
qed

text \<open>
  C2 as stated fails on a batch of two records that name each other as parent.
  The three threading approaches start with the walk to the thread root, which
  never returns on the pair, so threading does not terminate. Tree building
  returns a tree without any root: no record is promoted to a root, and the
  statistics see an empty forest of depth 0.
\<close>

theorem mutual_parents_counterexample:
  "buildMessageIdOnlyThreads (getAllThreadableEmails fixtureParse 0 100 [docX, docY]) = None \<and>
   map_option roots_t (builtTree (buildThreadTree
      (groupByThreads (loadEmailsFromFile fixtureParse [rowX, rowY])) ''T1'')) = Some [] \<and>
   statOf maxDepth (generateThreadStats
      (groupByThreads (loadEmailsFromFile fixtureParse [rowX, rowY])) ''T1'') = Some 0"
proof (intro conjI)
  have "hasParent (messageIdToEmail (getAllThreadableEmails fixtureParse 0 100 [docX, docY]))
      (solrEmail fixtureParse 0 docX)"
    by (simp add: hasParent_def cycle_processor) (simp add: solrEmail_docX)
  then have "messageIdOnlyStep (messageIdToEmail (getAllThreadableEmails fixtureParse 0 100 [docX, docY]))
      ([], []) (solrEmail fixtureParse 0 docX) = None"
    by (simp add: messageIdOnlyStep_def cycle_walk)
  moreover have "emails_p (getAllThreadableEmails fixtureParse 0 100 [docX, docY]) =
      [solrEmail fixtureParse 0 docX, solrEmail fixtureParse 0 docY]"
    by (simp add: cycle_processor)
  ultimately show "buildMessageIdOnlyThreads (getAllThreadableEmails fixtureParse 0 100 [docX, docY]) = None"
    by (simp add: buildMessageIdOnlyThreads_def)
  show "map_option roots_t (builtTree (buildThreadTree
      (groupByThreads (loadEmailsFromFile fixtureParse [rowX, rowY])) ''T1'')) = Some []"
    unfolding cycle_threads loadEmail_rowX loadEmail_rowY by code_simp
  show "statOf maxDepth (generateThreadStats
      (groupByThreads (loadEmailsFromFile fixtureParse [rowX, rowY])) ''T1'') = Some 0"
    unfolding cycle_threads loadEmail_rowX loadEmail_rowY by code_simp
qed

lemma those_Some_mem:
  "those (map f ks) = Some cs \<Longrightarrow> c \<in> set cs \<Longrightarrow> \<exists>k \<in> set ks. f k = Some c"
  by (induction ks arbitrary: cs) (auto split: option.splits)

lemma allNodes_mem:
  "nd \<in> set (allNodes cs) \<Longrightarrow> \<exists>c \<in> set cs. nd \<in> set (nodesOf c)"
  by (induction cs) auto

lemma unfold_reachable:
  "unfold n m k = Some t \<Longrightarrow> reachable m rs k \<Longrightarrow> nd \<in> set (nodesOf t) \<Longrightarrow>
     \<exists>k' node. reachable m rs k' \<and> m k' = Some node \<and> emailOf nd = email.truncate node"
proof (induction n arbitrary: k t nd)
  case 0
  then show ?case by simp
next
  case (Suc n)
  from Suc.prems(1) obtain node cs where node: "m k = Some node"
    and cs: "those (map (unfold n m) (children node)) = Some cs"
    and t: "t = TNode (email.truncate node) cs"
    by (auto split: option.splits)
  from Suc.prems(3) t have "nd = t \<or> nd \<in> set (allNodes cs)" by simp
  then show ?case
  proof
    assume "nd = t"
    with t node Suc.prems(2) show ?thesis by auto
  next
    assume "nd \<in> set (allNodes cs)"
    then obtain c where c: "c \<in> set cs" "nd \<in> set (nodesOf c)" by (auto dest: allNodes_mem)
    from those_Some_mem [OF cs c(1)] obtain kc where kc: "kc \<in> set (children node)"
      "unfold n m kc = Some c" by auto
    have "reachable m rs kc" using Suc.prems(2) node kc(1) by (rule reachable.child)
    from Suc.IH [OF kc(2) this c(2)] show ?thesis .
  qed
qed

lemma indexEmails_Some:
  "indexEmails es k = Some nd \<Longrightarrow> \<exists>e \<in> set es. nd = newNode e \<and> messageId e = k"
  by (induction es arbitrary: nd rule: rev_induct)
     (auto simp: indexEmails_snoc indexEmails_def split: if_splits)


lemma forest_emails:
  assumes run: "unfoldRoots n (\<lambda>k. map_option (appendChildren (kids k)) (indexEmails es k)) rs = Some forest"
    and nd: "nd \<in> set (allNodes forest)"
  shows "\<exists>e \<in> set es. emailOf nd = e \<and>
           reachable (\<lambda>k. map_option (appendChildren (kids k)) (indexEmails es k)) rs (messageId e)"
proof -
  let ?m = "\<lambda>k. map_option (appendChildren (kids k)) (indexEmails es k)"
  from nd obtain t where t: "t \<in> set forest" "nd \<in> set (nodesOf t)" by (auto dest: allNodes_mem)
  from run have "those (map (unfold n ?m) rs) = Some forest" by (simp add: unfoldRoots_def)
  from those_Some_mem [OF this t(1)] obtain r where r: "r \<in> set rs" "unfold n ?m r = Some t" by auto
  have "reachable ?m rs r" using r(1) by (rule reachable.root)
  from unfold_reachable [OF r(2) this t(2)] obtain k' node where k': "reachable ?m rs k'"
    "?m k' = Some node" "emailOf nd = email.truncate node" by blast
  from k'(2) obtain nd0 where nd0: "indexEmails es k' = Some nd0" "node = appendChildren (kids k') nd0"
    by auto
  from indexEmails_Some [OF nd0(1)] obtain e where e: "e \<in> set es" "nd0 = newNode e" "messageId e = k'"
    by auto
  from k'(3) nd0(2) e(2) have "emailOf nd = e" by simp
  with e k'(1) show ?thesis by auto
qed

lemma mutual_trio_threads:
  "groupByThreads [mutualA, mutualX, mutualY] = [(''T1'', [mutualA, mutualX, mutualY])]"
  by (simp add: groupByThreads_def groupStep_def sortBy_def compareDateSent_def
      mutualA_def mutualX_def mutualY_def mkEmail_def)

lemma mutual_trio_roots:
  "threadRoots [(''T1'', [mutualA, mutualX, mutualY])] ''T1'' = Some [TNode mutualA []]"
  by code_simp

text \<open>
  C2, as the code has it, for tree building. In a thread whose records have
  pairwise different identifiers, two records that name each other as parent
  are absent from the tree \<open>buildThreadTree\<close> returns: neither is among its roots,
  neither is reached from a root through \<open>children\<close>, so the forest the
  statistics walk carries neither record. Neither record is made a root; a
  thread made of the pair alone comes back without roots.
\<close>

theorem mutual_parents_forest:
  assumes "threadsGet ts tid = Some es" and "X \<in> set es" and "Y \<in> set es"
    and "inReplyTo X = messageId Y" and "inReplyTo Y = messageId X"
    and "truthy (messageId X)" and "truthy (messageId Y)"
    and "distinct (map messageId es)"
  shows "\<exists>tree. buildThreadTree ts tid = Inr (Some tree) \<and>
           messageId X \<notin> set (roots_t tree) \<and> messageId Y \<notin> set (roots_t tree) \<and>
           \<not> reachable (nodes_t tree) (roots_t tree) (messageId X) \<and>
           \<not> reachable (nodes_t tree) (roots_t tree) (messageId Y) \<and>
           (\<forall>forest. threadRoots ts tid = Some forest \<longrightarrow>
              X \<notin> emailOf ` set (allNodes forest) \<and> Y \<notin> emailOf ` set (allNodes forest)) \<and>
           (set es = {X, Y} \<longrightarrow> roots_t tree = [] \<and> threadRoots ts tid = Some [])"
proof -
  let ?first = "indexEmails es"
  let ?kids = "\<lambda>k. map messageId (filter (\<lambda>e. linked ?first e \<and> inReplyTo e = k) es)"
  let ?m = "\<lambda>k. map_option (appendChildren (?kids k)) (?first k)"
  let ?rs = "map messageId (filter (\<lambda>e. \<not> linked ?first e) es)"
  let ?tree = "\<lparr>threadId_t = tid, roots_t = ?rs, nodes_t = ?m, totalEmails = length es,
        participants = getUniqueParticipants es,
        dateRange = (dateSent (hd es), dateSent (last es))\<rparr>"
  have run: "foldl linkStep (?first, []) es = (?m, ?rs)" by (simp only: foldl_linkStep append_Nil)
  from assms(2) obtain x xs where cons: "es = x # xs" by (cases es) auto
  have tree: "buildThreadTree ts tid = Inr (Some ?tree)"
    unfolding buildThreadTree_def assms(1) using run cons by simp
  have roots: "threadRoots ts tid = unfoldRoots (length es) ?m ?rs"
    unfolding threadRoots_def tree by simp
  have m0X: "?first (messageId X) = Some (newNode X)"
    using assms(8,2) by (rule indexEmails_distinct)
  have m0Y: "?first (messageId Y) = Some (newNode Y)"
    using assms(8,3) by (rule indexEmails_distinct)
  have lX: "linked ?first X" using assms(4,7) m0Y by (simp add: linked_def)
  have lY: "linked ?first Y" using assms(5,6) m0X by (simp add: linked_def)
  have inj: "e = e'" if "e \<in> set es" "e' \<in> set es" "messageId e = messageId e'" for e e'
    using assms(8) that by (auto simp: distinct_map dest: inj_onD)
  have noroot: "messageId Z \<notin> set ?rs" if "Z \<in> set es" "linked ?first Z" for Z
  proof
    assume "messageId Z \<in> set ?rs"
    then obtain e where e: "e \<in> set es" "\<not> linked ?first e" "messageId e = messageId Z" by auto
    from inj [OF e(1) that(1) e(3)] e(2) that(2) show False by simp
  qed
  have away: "k \<noteq> messageId X \<and> k \<noteq> messageId Y" if "reachable ?m ?rs k" for k
    using that
  proof (induction rule: reachable.induct)
    case (root k)
    with noroot [OF assms(2) lX] noroot [OF assms(3) lY] show ?case by blast
  next
    case (child k nd c)
    from child.hyps(2) obtain nd0 where nd0: "?first k = Some nd0" "nd = appendChildren (?kids k) nd0"
      by auto
    from indexEmails_Some [OF nd0(1)] obtain p where p: "nd0 = newNode p" by auto
    with nd0(2) child.hyps(3) have "c \<in> set (?kids k)" by simp
    then obtain e where e: "e \<in> set es" "inReplyTo e = k" "messageId e = c" by auto
    show ?case
    proof (intro conjI notI)
      assume "c = messageId X"
      with e inj [OF e(1) assms(2)] have "k = messageId Y" using assms(4) by simp
      with child.IH show False by simp
    next
      assume "c = messageId Y"
      with e inj [OF e(1) assms(3)] have "k = messageId X" using assms(5) by simp
      with child.IH show False by simp
    qed
  qed
  have absent: "X \<notin> emailOf ` set (allNodes forest) \<and> Y \<notin> emailOf ` set (allNodes forest)"
    if "threadRoots ts tid = Some forest" for forest
  proof -
    from that roots have u: "unfoldRoots (length es) ?m ?rs = Some forest" by simp
    have "emailOf nd \<noteq> X \<and> emailOf nd \<noteq> Y" if "nd \<in> set (allNodes forest)" for nd
      using forest_emails [OF u that] away by blast
    then show ?thesis by blast
  qed
  have alone: "?rs = [] \<and> threadRoots ts tid = Some []" if "set es = {X, Y}"
  proof -
    from that lX lY have "\<forall>e \<in> set es. linked ?first e" by simp
    then have "filter (\<lambda>e. \<not> linked ?first e) es = []" by (simp add: filter_empty_conv)
    then have "?rs = []" by simp
    then show ?thesis unfolding roots by (simp add: unfoldRoots_def)
  qed
  have "messageId X \<notin> set (roots_t ?tree) \<and> messageId Y \<notin> set (roots_t ?tree) \<and>
           \<not> reachable (nodes_t ?tree) (roots_t ?tree) (messageId X) \<and>
           \<not> reachable (nodes_t ?tree) (roots_t ?tree) (messageId Y) \<and>
           (\<forall>forest. threadRoots ts tid = Some forest \<longrightarrow>
              X \<notin> emailOf ` set (allNodes forest) \<and> Y \<notin> emailOf ` set (allNodes forest)) \<and>
           (set es = {X, Y} \<longrightarrow> roots_t ?tree = [] \<and> threadRoots ts tid = Some [])"
    apply (simp only: threadTree.simps)
    using noroot [OF assms(2) lX] noroot [OF assms(3) lY] away absent alone by blast
  with tree show ?thesis by blast
qed

text \<open>
  C2 on a thread of a root and a pair naming each other as parent, and on the
  two rows that name each other as parent.
\<close>

theorem mutual_parents_forest_witness:
  "inReplyTo mutualX = messageId mutualY \<and> inReplyTo mutualY = messageId mutualX \<and>
   threadRoots (groupByThreads [mutualA, mutualX, mutualY]) ''T1'' = Some [TNode mutualA []] \<and>
   mutualX \<notin> emailOf ` set (allNodes [TNode mutualA []]) \<and>
   mutualY \<notin> emailOf ` set (allNodes [TNode mutualA []]) \<and>
   (\<exists>tree. buildThreadTree (groupByThreads [mutualA, mutualX, mutualY]) ''T1'' = Inr (Some tree) \<and>
      messageId mutualX \<notin> set (roots_t tree) \<and> messageId mutualY \<notin> set (roots_t tree) \<and>
      \<not> reachable (nodes_t tree) (roots_t tree) (messageId mutualX) \<and>
      \<not> reachable (nodes_t tree) (roots_t tree) (messageId mutualY)) \<and>
   (\<exists>tree. buildThreadTree (groupByThreads (loadEmailsFromFile fixtureParse [rowX, rowY])) ''T1''
        = Inr (Some tree) \<and> roots_t tree = [])"
proof -
  let ?ts = "groupByThreads [mutualA, mutualX, mutualY]"
  have ids: "messageId mutualX = Some ''<x@c>''" "messageId mutualY = Some ''<y@c>''"
    "inReplyTo mutualX = Some ''<y@c>''" "inReplyTo mutualY = Some ''<x@c>''"
    "messageId mutualA = Some ''<a@c>''"
    by (simp_all add: mutualA_def mutualX_def mutualY_def mkEmail_def)
  have h1: "threadsGet ?ts ''T1'' = Some [mutualA, mutualX, mutualY]"
    by (simp add: mutual_trio_threads)
  have h2: "mutualX \<in> set [mutualA, mutualX, mutualY]"
    and h3: "mutualY \<in> set [mutualA, mutualX, mutualY]" by simp_all
  have h4: "inReplyTo mutualX = messageId mutualY" and h5: "inReplyTo mutualY = messageId mutualX"
    by (simp_all add: ids)
  have h6: "truthy (messageId mutualX)" and h7: "truthy (messageId mutualY)" by (simp_all add: ids)
  have h8: "distinct (map messageId [mutualA, mutualX, mutualY])" by (simp add: ids)
  have forest: "threadRoots ?ts ''T1'' = Some [TNode mutualA []]"
    by (simp only: mutual_trio_threads mutual_trio_roots)
  let ?X = "loadEmail fixtureParse rowX" and ?Y = "loadEmail fixtureParse rowY"
  let ?ps = "groupByThreads (loadEmailsFromFile fixtureParse [rowX, rowY])"
  have rids: "messageId ?X = Some ''<x@c>''" "messageId ?Y = Some ''<y@c>''"
    "inReplyTo ?X = Some ''<y@c>''" "inReplyTo ?Y = Some ''<x@c>''"
    by (simp_all add: loadEmail_rowX loadEmail_rowY)
  have g1: "threadsGet ?ps ''T1'' = Some [?X, ?Y]" by (simp add: cycle_threads)
  have g2: "?X \<in> set [?X, ?Y]" and g3: "?Y \<in> set [?X, ?Y]" by simp_all
  have g4: "inReplyTo ?X = messageId ?Y" and g5: "inReplyTo ?Y = messageId ?X"
    by (simp_all add: rids)
  have g6: "truthy (messageId ?X)" and g7: "truthy (messageId ?Y)" by (simp_all add: rids)
  have g8: "distinct (map messageId [?X, ?Y])" by (simp add: rids)
  have g9: "set [?X, ?Y] = {?X, ?Y}" by simp
  from mutual_parents_forest [OF h1 h2 h3 h4 h5 h6 h7 h8] forest
    mutual_parents_forest [OF g1 g2 g3 g4 g5 g6 g7 g8] g9 h4 h5
  show ?thesis by blast
qed

section \<open>Time proximity\<close>

lemma find_first:
  "P a \<Longrightarrow> \<forall>x \<in> set pre. \<not> P x \<Longrightarrow> find P (pre @ a # post) = Some a"
  by (induction pre) auto

text \<open>
  C3 as stated fails. The third document matches both open threads; the thread
  of the second was active last (01:00 against 00:00), yet the document joins
  the thread of the first.
\<close>

theorem most_recent_counterexample:
  "membership (buildMessageIdWithProximityThreads 24
      (getAllThreadableEmails hourParse 0 100 proximityDocs))
     = Some [(Some ''1'', [Some ''1'', Some ''3'']), (Some ''2'', [Some ''2''])]"
  by code_simp

text \<open>
  C3, as the code has it. A record that is not yet processed and has no
  identifier-based match (no known parent, or a root whose thread does not exist
  yet) joins the first thread, in the order the threads were created, whose
  last-pushed record is within the window and that shares a participant with it;
  threads after that one are not looked at, however recently active. There is
  no ranking by recency and no tie-break.
\<close>

theorem proximity_first_match:
  assumes "id_f e \<notin> set processedEmails"
    and "\<not> hasParent index e \<or>
         (findRoot index e = Some r \<and> getThread (pre @ (tid, th) # post) (threadKey r) = None)"
    and "proximityMatch proximityHours e (tid, th)"
    and "\<forall>kt \<in> set pre. \<not> proximityMatch proximityHours e kt"
  shows "proximityStep index proximityHours (pre @ (tid, th) # post, processedEmails) e =
           Some (addToThread ''message-id-proximity'' tid e (pre @ (tid, th) # post),
                 setAdd processedEmails (id_f e))"
proof -
  have f: "find (proximityMatch proximityHours e) (pre @ (tid, th) # post) = Some (tid, th)"
    using assms(3,4) by (rule find_first)
  from assms(2) show ?thesis
  proof
    assume "\<not> hasParent index e"
    then show ?thesis using assms(1) by (simp add: proximityStep_def f)
  next
    assume "findRoot index e = Some r \<and> getThread (pre @ (tid, th) # post) (threadKey r) = None"
    then show ?thesis using assms(1) by (simp add: proximityStep_def f)
  qed
qed

text \<open>C3 on the three records: both open threads match, and the first one created is joined.\<close>

theorem proximity_first_match_witness:
  "id_f memo \<notin> set [Some ''1'', Some ''2''] \<and> \<not> hasParent Map.empty memo \<and>
   proximityMatch 24 memo (Some ''1'', lunchThread) \<and>
   proximityMatch 24 memo (Some ''2'', auditThread) \<and>
   proximityStep Map.empty 24
     ([] @ (Some ''1'', lunchThread) # [(Some ''2'', auditThread)], [Some ''1'', Some ''2'']) memo =
     Some (addToThread ''message-id-proximity'' (Some ''1'') memo
             ([] @ (Some ''1'', lunchThread) # [(Some ''2'', auditThread)]),
           setAdd [Some ''1'', Some ''2''] (id_f memo))"
proof -
  have h1: "id_f memo \<notin> set [Some ''1'', Some ''2'']"
    by (simp add: memo_def plainEmail_def)
  have np: "\<not> hasParent Map.empty memo" by (simp add: hasParent_def)
  then have h2: "\<not> hasParent Map.empty memo \<or>
      (findRoot Map.empty memo = Some memo \<and>
       getThread ([] @ (Some ''1'', lunchThread) # [(Some ''2'', auditThread)]) (threadKey memo) = None)"
    by (rule disjI1)
  have h3: "proximityMatch 24 memo (Some ''1'', lunchThread)"
    by (simp add: proximityMatch_def withinHours_def lunchThread_def joinThread_def newThread_def
          setAdd_def memo_def lunch_def plainEmail_def)
  have h4: "\<forall>kt \<in> set []. \<not> proximityMatch 24 memo kt" by simp
  have also2: "proximityMatch 24 memo (Some ''2'', auditThread)"
    by (simp add: proximityMatch_def withinHours_def auditThread_def joinThread_def newThread_def
          setAdd_def memo_def audit_def plainEmail_def)
  from proximity_first_match [OF h1 h2 h3 h4] h1 np h3 also2 show ?thesis by blast
qed

section \<open>Input order\<close>

lemma insertBy_insort_key:
  "dateSent x \<noteq> None \<Longrightarrow> \<forall>y \<in> set ys. dateSent y \<noteq> None \<Longrightarrow>
     insertBy compareDateSent x ys = insort_key timeValue x ys"
  by (induction ys) (auto simp: compareDateSent_def timeValue_def)

lemma sortBy_sort_key:
  "\<forall>x \<in> set xs. dateSent x \<noteq> None \<Longrightarrow>
     sortBy compareDateSent xs = sort_key timeValue xs"
proof (induction xs)
  case Nil
  show ?case by (simp add: sortBy_def)
next
  case (Cons x xs)
  then have ih: "sortBy compareDateSent xs = sort_key timeValue xs" by simp
  have "sortBy compareDateSent (x # xs) = insertBy compareDateSent x (sortBy compareDateSent xs)"
    by (simp add: sortBy_def)
  also have "\<dots> = insort_key timeValue x (sortBy compareDateSent xs)"
    using Cons.prems by (intro insertBy_insort_key) (simp_all add: set_sortBy)
  finally show ?case by (simp add: ih)
qed

lemma sort_key_permutation:
  assumes "mset xs = mset ys" and "inj_on f (set xs)"
  shows "sort_key f xs = sort_key f ys"
  using assms by (intro sort_key_inj_key_eq) simp_all

lemma sortBy_permutation:
  assumes "mset xs = mset ys" and "\<forall>x \<in> set xs. dateSent x \<noteq> None" and "inj_on dateSent (set xs)"
  shows "sortBy compareDateSent xs = sortBy compareDateSent ys"
proof -
  have sets: "set ys = set xs" using assms(1) by (metis mset_eq_setD)
  have "inj_on timeValue (set xs)"
  proof (rule inj_onI)
    fix a b assume ab: "a \<in> set xs" "b \<in> set xs" "timeValue a = timeValue b"
    from assms(2) ab(1,2) obtain x y where "dateSent a = Some x" "dateSent b = Some y" by blast
    with ab(3) have "dateSent a = dateSent b" by (simp add: timeValue_def)
    with assms(3) ab show "a = b" by (auto dest: inj_onD)
  qed
  with assms(1) have "sort_key timeValue xs = sort_key timeValue ys"
    by (rule sort_key_permutation)
  then show ?thesis using assms(2) sets by (simp add: sortBy_sort_key)
qed

lemma index_sound:
  "snd (foldl registerEmail st es) k = Some e \<Longrightarrow>
     snd st k = Some e \<or> (e \<in> set es \<and> messageId e = Some k \<and> k \<noteq> [])"
proof (induction es arbitrary: st)
  case Nil
  then show ?case by simp
next
  case (Cons x es)
  from Cons.IH [of "registerEmail st x"] Cons.prems
  have "snd (registerEmail st x) k = Some e \<or> (e \<in> set es \<and> messageId e = Some k \<and> k \<noteq> [])"
    by simp
  then show ?case
    by (cases "messageId x") (auto simp: registerEmail_def split_beta split: if_splits)
qed

lemma index_keeps:
  "snd st k \<noteq> None \<Longrightarrow> snd (foldl registerEmail st es) k \<noteq> None"
  by (induction es arbitrary: st) (auto simp: registerEmail_def split_beta)

lemma index_complete:
  "e \<in> set es \<Longrightarrow> messageId e = Some k \<Longrightarrow> k \<noteq> [] \<Longrightarrow>
     snd (foldl registerEmail st es) k \<noteq> None"
proof (induction es arbitrary: st)
  case Nil
  then show ?case by simp
next
  case (Cons x es)
  show ?case
  proof (cases "x = e")
    case True
    with Cons.prems have "snd (registerEmail st x) k \<noteq> None"
      by (simp add: registerEmail_def split_beta)
    then show ?thesis using index_keeps [of "registerEmail st x" k es] by simp
  next
    case False
    with Cons show ?thesis by simp
  qed
qed

lemma index_permutation:
  assumes "set es' = set es" and "inj_on messageId {e \<in> set es. truthy (messageId e)}"
  shows "snd (foldl registerEmail ([], Map.empty) es') = snd (foldl registerEmail ([], Map.empty) es)"
proof
  fix k
  let ?i = "snd (foldl registerEmail ([], Map.empty) es)"
  let ?i' = "snd (foldl registerEmail ([], Map.empty) es')"
  show "?i' k = ?i k"
  proof (cases "?i k")
    case None
    have "?i' k = None"
    proof (rule ccontr)
      assume "?i' k \<noteq> None"
      then obtain e where "?i' k = Some e" by auto
      from index_sound [OF this] assms(1) have "e \<in> set es" "messageId e = Some k" "k \<noteq> []"
        by auto
      from index_complete [OF this, of "([], Map.empty)"] None show False by simp
    qed
    with None show ?thesis by simp
  next
    case (Some e)
    from index_sound [OF Some] have e: "e \<in> set es" "messageId e = Some k" "k \<noteq> []" by auto
    with assms(1) have "e \<in> set es'" by simp
    from index_complete [OF this e(2,3), of "([], Map.empty)"]
    obtain e' where s': "?i' k = Some e'" by auto
    from index_sound [OF s'] assms(1) have e': "e' \<in> set es" "messageId e' = Some k" by auto
    from e e' have "e \<in> {e \<in> set es. truthy (messageId e)}" "e' \<in> {e \<in> set es. truthy (messageId e)}"
      "messageId e' = messageId e" by auto
    with assms(2) have "e' = e" by (auto dest: inj_onD)
    with s' Some show ?thesis by simp
  qed
qed

lemma set_setAdd: "set (setAdd s a) = insert a (set s)"
  by (auto simp: setAdd_def)

lemma solrEmail_docRoot:
  "solrEmail fixtureParse 0 docRoot =
     \<lparr>messageId = Some ''a@h'', inReplyTo = None, references = Some [], threadId = None,
      isForward = False, isExternal = False, id_f = Some ''1'', from_f = Some ''Unknown'',
      to_f = [], cc = [], subject = Some ''Kickoff'', normalizedSubject = ''kickoff'',
      dateSent = Some 1704067200000, fullText = Some ''Message-ID: <a@h>''\<rparr>"
  by code_simp

lemma solrEmail_docReply:
  "solrEmail fixtureParse 0 docReply =
     \<lparr>messageId = Some ''b@h'', inReplyTo = Some ''a@h'', references = Some [], threadId = None,
      isForward = False, isExternal = False, id_f = Some ''2'', from_f = Some ''Unknown'',
      to_f = [''<a@h>''], cc = [], subject = Some ''Minutes'', normalizedSubject = ''minutes'',
      dateSent = Some 1704067200000,
      fullText = Some (''Message-ID: <b@h>'' @ [CHR 0x0D, CHR 0x0A] @ ''In-Reply-To: <a@h>'')\<rparr>"
  by code_simp

lemma solrEmail_docLate:
  "solrEmail fixtureParse 0 docLate =
     \<lparr>messageId = Some ''c@h'', inReplyTo = Some ''a@h'', references = Some [], threadId = None,
      isForward = False, isExternal = False, id_f = Some ''3'', from_f = Some ''Unknown'',
      to_f = [''<a@h>''], cc = [], subject = Some ''Minutes'', normalizedSubject = ''minutes'',
      dateSent = Some 1704153600000,
      fullText = Some (''Message-ID: <c@h>'' @ [CHR 0x0D, CHR 0x0A] @ ''In-Reply-To: <a@h>'')\<rparr>"
  by code_simp

lemma fields_docRoot:
  "messageId (solrEmail fixtureParse 0 docRoot) = Some ''a@h''"
  "inReplyTo (solrEmail fixtureParse 0 docRoot) = None"
  "id_f (solrEmail fixtureParse 0 docRoot) = Some ''1''"
  "normalizedSubject (solrEmail fixtureParse 0 docRoot) = ''kickoff''"
  "dateSent (solrEmail fixtureParse 0 docRoot) = Some 1704067200000"
  by (simp_all add: solrEmail_docRoot)

lemma fields_docReply:
  "messageId (solrEmail fixtureParse 0 docReply) = Some ''b@h''"
  "inReplyTo (solrEmail fixtureParse 0 docReply) = Some ''a@h''"
  "id_f (solrEmail fixtureParse 0 docReply) = Some ''2''"
  "normalizedSubject (solrEmail fixtureParse 0 docReply) = ''minutes''"
  "dateSent (solrEmail fixtureParse 0 docReply) = Some 1704067200000"
  by (simp_all add: solrEmail_docReply)

lemma fields_docLate:
  "messageId (solrEmail fixtureParse 0 docLate) = Some ''c@h''"
  "inReplyTo (solrEmail fixtureParse 0 docLate) = Some ''a@h''"
  "id_f (solrEmail fixtureParse 0 docLate) = Some ''3''"
  "normalizedSubject (solrEmail fixtureParse 0 docLate) = ''minutes''"
  "dateSent (solrEmail fixtureParse 0 docLate) = Some 1704153600000"
  by (simp_all add: solrEmail_docLate)

text \<open>
  C9 as stated fails when two records carry the same timestamp: the sort keeps
  them in input order, and the reply listed before its parent starts a thread of
  its own, where the other order puts both into one thread.
\<close>

theorem input_order_counterexample:
  "membership (buildHybridThreads (getAllThreadableEmails fixtureParse 0 100 [docRoot, docReply]))
     = Some [(Some ''a@h'', [Some ''1'', Some ''2''])] \<and>
   membership (buildHybridThreads (getAllThreadableEmails fixtureParse 0 100 [docReply, docRoot]))
     = Some [(Some ''b@h'', [Some ''2'']), (Some ''a@h'', [Some ''1''])]"
proof
  let ?root = "solrEmail fixtureParse 0 docRoot" and ?reply = "solrEmail fixtureParse 0 docReply"
  note fields = fields_docRoot fields_docReply
  note defs = buildHybridThreads_def getAllThreadableEmails_def registerEmail_def
    sortBy_def compareDateSent_def hybridStep_def hasParent_def threadKey_def orStr_def
    getThread_def joinThread_def newThread_def Let_def membership_def finishThreads_def set_setAdd
  have walk1: "findRoot [''a@h'' \<mapsto> ?root, ''b@h'' \<mapsto> ?reply] ?reply = Some ?root"
    by (subst findRoot.simps, simp add: fields, subst findRoot.simps, simp add: fields)
  have walk2: "findRoot [''b@h'' \<mapsto> ?reply, ''a@h'' \<mapsto> ?root] ?reply = Some ?root"
    by (subst findRoot.simps, simp add: fields, subst findRoot.simps, simp add: fields)
  show "membership (buildHybridThreads (getAllThreadableEmails fixtureParse 0 100 [docRoot, docReply]))
     = Some [(Some ''a@h'', [Some ''1'', Some ''2''])]"
    by (simp add: defs fields walk1)
  show "membership (buildHybridThreads (getAllThreadableEmails fixtureParse 0 100 [docReply, docRoot]))
     = Some [(Some ''b@h'', [Some ''2'']), (Some ''a@h'', [Some ''1''])]"
    by (simp add: defs fields walk2)
qed

lemma groupByThreads_permutation:
  assumes "mset emails' = mset emails" and "\<forall>e \<in> set emails. dateSent e \<noteq> None"
    and "inj_on dateSent (set emails)"
  shows "threadsGet (groupByThreads emails') tid = threadsGet (groupByThreads emails) tid"
proof -
  let ?P = "\<lambda>e. threadId e = Some tid"
  have m: "mset (filter ?P emails') = mset (filter ?P emails)"
    using assms(1) by (metis mset_filter)
  then have e: "(filter ?P emails' = []) = (filter ?P emails = [])"
    by (metis mset_zero_iff)
  have "inj_on dateSent (set (filter ?P emails'))"
    using assms(1,3) by (metis (no_types, lifting) inj_on_subset mset_eq_setD filter_is_subset)
  moreover have "\<forall>x \<in> set (filter ?P emails'). dateSent x \<noteq> None"
    using assms(1,2) by (metis (no_types, lifting) mset_eq_setD filter_is_subset subsetD)
  ultimately have "sortBy compareDateSent (filter ?P emails') = sortBy compareDateSent (filter ?P emails)"
    using m by (intro sortBy_permutation)
  with e show ?thesis by (simp add: threadsGet_groupByThreads)
qed

text \<open>
  The walk to the thread root returns when the records can be ranked so that
  every record ranks above the record it names as parent; then every loop body
  of the three approaches returns, and so do the approaches.
\<close>

lemma findRoot_returns:
  assumes range: "\<And>k p. index k = Some p \<Longrightarrow> p \<in> S \<and> messageId p = Some k"
    and rank: "\<forall>e \<in> S. \<forall>p \<in> S. truthy (inReplyTo e) \<and> inReplyTo e = messageId p \<longrightarrow>
                 (rank p :: nat) < rank e"
    and mem: "e \<in> S"
  shows "\<exists>r. findRoot index e = Some r"
  using mem
proof (induction "rank e" arbitrary: e rule: less_induct)
  case less
  show ?case
  proof (cases "truthy (inReplyTo e) \<and> index (the (inReplyTo e)) \<noteq> None")
    case False
    then have "findRoot index e = Some e" by (subst findRoot.simps) auto
    then show ?thesis by blast
  next
    case True
    then obtain k p where k: "inReplyTo e = Some k" and p: "index k = Some p"
      by (cases "inReplyTo e") auto
    from range [OF p] have pS: "p \<in> S" and idp: "messageId p = Some k" by simp_all
    from rank less.prems pS True k idp have "rank p < rank e" by simp
    from less.hyps [OF this pS] obtain r where "findRoot index p = Some r" by blast
    moreover have "findRoot index e = findRoot index p"
      using True k p by (subst findRoot.simps) simp
    ultimately show ?thesis by simp
  qed
qed

lemma forEachEmail_returns:
  "(\<And>st e. e \<in> set es \<Longrightarrow> \<exists>st'. step st e = Some st') \<Longrightarrow> \<exists>r. forEachEmail step st es = Some r"
proof (induction es arbitrary: st)
  case Nil
  show ?case by simp
next
  case (Cons e es)
  from Cons.prems [of e st] obtain st' where st': "step st e = Some st'" by auto
  from Cons.IH [of st'] Cons.prems obtain r where "forEachEmail step st' es = Some r" by auto
  with st' show ?case by simp
qed

lemma messageIdOnlyStep_returns:
  "\<exists>r. findRoot index e = Some r \<Longrightarrow> \<exists>st'. messageIdOnlyStep index st e = Some st'"
  by (auto simp: messageIdOnlyStep_def split_beta)

lemma proximityStep_returns:
  "\<exists>r. findRoot index e = Some r \<Longrightarrow> \<exists>st'. proximityStep index hours st e = Some st'"
  by (auto simp: proximityStep_def split_beta Let_def)

lemma hybridStep_returns:
  "\<exists>r. findRoot index e = Some r \<Longrightarrow> \<exists>st'. hybridStep index st e = Some st'"
  by (cases st) (auto simp: hybridStep_def Let_def)

lemma threading_returns:
  assumes rank: "\<forall>e \<in> set es. \<forall>p \<in> set es. truthy (inReplyTo e) \<and> inReplyTo e = messageId p \<longrightarrow>
                 (rank p :: nat) < rank e"
    and p: "emails_p p = sortBy compareDateSent es"
      "messageIdToEmail p = snd (foldl registerEmail ([], Map.empty) es)"
  shows "\<exists>r. buildMessageIdOnlyThreads p = Some r"
    and "\<exists>r. buildMessageIdWithProximityThreads hours p = Some r"
    and "\<exists>r. buildHybridThreads p = Some r"
proof -
  have range: "q \<in> set es \<and> messageId q = Some k" if "messageIdToEmail p k = Some q" for k q
    using index_sound [of "([], Map.empty)" es k q] that by (simp add: p(2))
  have walk: "\<exists>r. findRoot (messageIdToEmail p) e = Some r" if "e \<in> set (emails_p p)" for e
    using range rank that [unfolded p(1) set_sortBy] by (rule findRoot_returns)
  have "\<exists>r. forEachEmail (messageIdOnlyStep (messageIdToEmail p)) ([], []) (emails_p p) = Some r"
    by (rule forEachEmail_returns, rule messageIdOnlyStep_returns, rule walk)
  then show "\<exists>r. buildMessageIdOnlyThreads p = Some r"
    by (auto simp: buildMessageIdOnlyThreads_def)
  have "\<exists>r. forEachEmail (proximityStep (messageIdToEmail p) hours) ([], []) (emails_p p) = Some r"
    by (rule forEachEmail_returns, rule proximityStep_returns, rule walk)
  then show "\<exists>r. buildMessageIdWithProximityThreads hours p = Some r"
    by (auto simp: buildMessageIdWithProximityThreads_def)
  have "\<exists>r. forEachEmail (hybridStep (messageIdToEmail p)) ([], [], Map.empty) (emails_p p) = Some r"
    by (rule forEachEmail_returns, rule hybridStep_returns, rule walk)
  then show "\<exists>r. buildHybridThreads p = Some r"
    by (auto simp: buildHybridThreads_def)
qed


text \<open>
  Under the same ranking the node graph of a thread unfolds within the fuel of
  one level per record, so the statistics are computed.
\<close>

lemma those_returns:
  "(\<And>x. x \<in> set xs \<Longrightarrow> \<exists>y. f x = Some y) \<Longrightarrow> \<exists>ys. those (map f xs) = Some ys"
proof (induction xs)
  case Nil
  show ?case by simp
next
  case (Cons x xs)
  from Cons.prems [of x] obtain y where "f x = Some y" by auto
  moreover from Cons.IH Cons.prems obtain ys where "those (map f xs) = Some ys" by auto
  ultimately show ?case by simp
qed

lemma unfold_returns:
  assumes inj: "inj_on messageId (set es)"
    and rank: "\<forall>e \<in> set es. \<forall>p \<in> set es. truthy (inReplyTo e) \<and> inReplyTo e = messageId p \<longrightarrow>
                 (rank p :: nat) < rank e"
  shows "e \<in> set es \<Longrightarrow> card {x \<in> set es. rank e < rank x} < n \<Longrightarrow>
     \<exists>t. unfold n (\<lambda>k. map_option
            (appendChildren (map messageId (filter (\<lambda>x. linked (indexEmails es) x \<and> inReplyTo x = k) es)))
            (indexEmails es k)) (messageId e) = Some t"
proof (induction n arbitrary: e)
  case 0
  then show ?case by simp
next
  case (Suc n)
  let ?kids = "\<lambda>k. map messageId (filter (\<lambda>x. linked (indexEmails es) x \<and> inReplyTo x = k) es)"
  let ?m = "\<lambda>k. map_option (appendChildren (?kids k)) (indexEmails es k)"
  have "indexEmails es (messageId e) \<noteq> None" using Suc.prems(1) by (simp add: indexEmails_None)
  then obtain nd where nd: "indexEmails es (messageId e) = Some nd" by auto
  from indexEmails_Some [OF nd] obtain e' where e': "e' \<in> set es" "nd = newNode e'"
    "messageId e' = messageId e" by auto
  from inj e'(1,3) Suc.prems(1) have "e' = e" by (auto dest: inj_onD)
  with nd e'(2) have me: "?m (messageId e) = Some (appendChildren (?kids (messageId e)) (newNode e))"
    by simp
  have kid: "\<exists>t. unfold n ?m c = Some t" if "c \<in> set (?kids (messageId e))" for c
  proof -
    from that obtain x where x: "x \<in> set es" "linked (indexEmails es) x"
      "inReplyTo x = messageId e" "c = messageId x" by auto
    from x(2) have "truthy (inReplyTo x)" by (simp add: linked_def)
    with rank x(1,3) Suc.prems(1) have lt: "rank e < rank x" by simp
    have "{y \<in> set es. rank x < rank y} \<subset> {y \<in> set es. rank e < rank y}"
      using lt x(1) by auto
    then have "card {y \<in> set es. rank x < rank y} < card {y \<in> set es. rank e < rank y}"
      by (intro psubset_card_mono) simp_all
    with Suc.prems(2) have "card {y \<in> set es. rank x < rank y} < n" by simp
    from Suc.IH [OF x(1) this] x(4) show ?thesis by simp
  qed
  from those_returns [of "?kids (messageId e)" "unfold n ?m", OF kid]
  obtain cs where "those (map (unfold n ?m) (?kids (messageId e))) = Some cs" by blast
  then show ?case by (simp only: unfold.simps me option.case children_appendChildren) simp
qed

lemma generateThreadStats_returns:
  assumes get: "threadsGet ts tid = Some es" and ne: "es \<noteq> []"
    and inj: "inj_on messageId (set es)"
    and rank: "\<forall>e \<in> set es. \<forall>p \<in> set es. truthy (inReplyTo e) \<and> inReplyTo e = messageId p \<longrightarrow>
                 (rank p :: nat) < rank e"
  shows "\<exists>tree st. buildThreadTree ts tid = Inr (Some tree) \<and>
           generateThreadStats ts tid = Inr (Some st)"
proof -
  let ?first = "indexEmails es"
  let ?kids = "\<lambda>k. map messageId (filter (\<lambda>e. linked ?first e \<and> inReplyTo e = k) es)"
  let ?m = "\<lambda>k. map_option (appendChildren (?kids k)) (?first k)"
  let ?rs = "map messageId (filter (\<lambda>e. \<not> linked ?first e) es)"
  let ?tree = "\<lparr>threadId_t = tid, roots_t = ?rs, nodes_t = ?m, totalEmails = length es,
        participants = getUniqueParticipants es,
        dateRange = (dateSent (hd es), dateSent (last es))\<rparr>"
  have run: "foldl linkStep (?first, []) es = (?m, ?rs)" by (simp only: foldl_linkStep append_Nil)
  from ne obtain x xs where cons: "es = x # xs" by (cases es) auto
  have tree: "buildThreadTree ts tid = Inr (Some ?tree)"
    unfolding buildThreadTree_def get using run cons by simp
  have root: "\<exists>t. unfold (length es) ?m r = Some t" if "r \<in> set ?rs" for r
  proof -
    from that obtain e where e: "e \<in> set es" "r = messageId e" by auto
    have "{x \<in> set es. rank e < rank x} \<subset> set es" using e(1) by auto
    then have "card {x \<in> set es. rank e < rank x} < card (set es)"
      by (intro psubset_card_mono) simp_all
    also have "\<dots> \<le> length es" by (rule card_length)
    finally have "card {x \<in> set es. rank e < rank x} < length es" .
    from unfold_returns [OF inj rank e(1) this] e(2) show ?thesis by simp
  qed
  from those_returns [of ?rs "unfold (length es) ?m", OF root]
  obtain forest where "unfoldRoots (length es) ?m ?rs = Some forest"
    by (auto simp: unfoldRoots_def)
  then have "\<exists>st. generateThreadStats ts tid = Inr (Some st)"
    unfolding generateThreadStats_def tree by (simp add: Let_def)
  with tree show ?thesis by blast
qed

text \<open>
  C9, as the code has it. When the records of a batch carry valid, pairwise
  different timestamps and pairwise different identifiers, and no chain of
  parents runs in a circle (the records can be ranked so that every record ranks
  above the record it names as parent), the order of the input does not matter.
  The loader sorts the records into one order and builds one index, and each of
  the three threading approaches returns, with the same threads for both
  orders; the thread processor finds the same records, in the same order, under
  a thread id, and returns the same tree and the same statistics.
\<close>

theorem resolution_order_independent:
  "(mset docs' = mset docs \<and>
    (\<forall>d \<in> set docs. dateSent (solrEmail parse now d) \<noteq> None) \<and>
    inj_on dateSent (solrEmail parse now ` set docs) \<and>
    inj_on messageId {e \<in> solrEmail parse now ` set docs. truthy (messageId e)} \<and>
    (\<forall>e \<in> solrEmail parse now ` set docs. \<forall>p \<in> solrEmail parse now ` set docs.
       truthy (inReplyTo e) \<and> inReplyTo e = messageId p \<longrightarrow> (rank p :: nat) < rank e) \<longrightarrow>
      getAllThreadableEmails parse now limit docs' = getAllThreadableEmails parse now limit docs \<and>
      (\<exists>byId byProximity hybrid.
         buildMessageIdOnlyThreads (getAllThreadableEmails parse now limit docs') = Some byId \<and>
         buildMessageIdOnlyThreads (getAllThreadableEmails parse now limit docs) = Some byId \<and>
         buildMessageIdWithProximityThreads proximityHours (getAllThreadableEmails parse now limit docs')
           = Some byProximity \<and>
         buildMessageIdWithProximityThreads proximityHours (getAllThreadableEmails parse now limit docs)
           = Some byProximity \<and>
         buildHybridThreads (getAllThreadableEmails parse now limit docs') = Some hybrid \<and>
         buildHybridThreads (getAllThreadableEmails parse now limit docs) = Some hybrid)) \<and>
   (mset emails' = mset emails \<and> (\<forall>e \<in> set emails. dateSent e \<noteq> None) \<and>
    inj_on dateSent (set emails) \<and> inj_on messageId (set emails) \<and>
    (\<forall>e \<in> set emails. \<forall>p \<in> set emails.
       truthy (inReplyTo e) \<and> inReplyTo e = messageId p \<longrightarrow> rank p < rank e) \<and>
    tid \<noteq> [] \<and> (\<exists>e \<in> set emails. threadId e = Some tid) \<longrightarrow>
      (\<exists>tree st.
         buildThreadTree (groupByThreads emails') tid = Inr (Some tree) \<and>
         buildThreadTree (groupByThreads emails) tid = Inr (Some tree) \<and>
         generateThreadStats (groupByThreads emails') tid = Inr (Some st) \<and>
         generateThreadStats (groupByThreads emails) tid = Inr (Some st)))"
proof (intro conjI impI)
  assume a: "mset docs' = mset docs \<and>
    (\<forall>d \<in> set docs. dateSent (solrEmail parse now d) \<noteq> None) \<and>
    inj_on dateSent (solrEmail parse now ` set docs) \<and>
    inj_on messageId {e \<in> solrEmail parse now ` set docs. truthy (messageId e)} \<and>
    (\<forall>e \<in> solrEmail parse now ` set docs. \<forall>p \<in> solrEmail parse now ` set docs.
       truthy (inReplyTo e) \<and> inReplyTo e = messageId p \<longrightarrow> rank p < rank e)"
  let ?es = "map (solrEmail parse now) docs" and ?es' = "map (solrEmail parse now) docs'"
  let ?p = "getAllThreadableEmails parse now limit docs"
  from a have m: "mset ?es' = mset ?es" by simp
  then have sets: "set ?es' = set ?es" by (rule mset_eq_setD)
  have "sortBy compareDateSent ?es' = sortBy compareDateSent ?es"
  proof (rule sortBy_permutation [OF m])
    show "\<forall>x \<in> set ?es'. dateSent x \<noteq> None" using a sets by auto
    show "inj_on dateSent (set ?es')" using a sets by simp
  qed
  moreover have "snd (foldl registerEmail ([], Map.empty) ?es')
      = snd (foldl registerEmail ([], Map.empty) ?es)"
    using sets a by (intro index_permutation) simp_all
  moreover have "length docs' = length docs" using a by (metis mset_eq_length)
  ultimately show same: "getAllThreadableEmails parse now limit docs'
      = getAllThreadableEmails parse now limit docs"
    by (simp add: getAllThreadableEmails_def split_beta fst_foldl_registerEmail)
  have rank: "\<forall>e \<in> set ?es. \<forall>p \<in> set ?es.
      truthy (inReplyTo e) \<and> inReplyTo e = messageId p \<longrightarrow> rank p < rank e"
    using a by auto
  from threading_returns [OF rank getAllThreadableEmails_fields(1,2)]
  obtain byId byProximity hybrid where "buildMessageIdOnlyThreads ?p = Some byId"
    "buildMessageIdWithProximityThreads proximityHours ?p = Some byProximity"
    "buildHybridThreads ?p = Some hybrid" by blast
  then show "\<exists>byId byProximity hybrid.
         buildMessageIdOnlyThreads (getAllThreadableEmails parse now limit docs') = Some byId \<and>
         buildMessageIdOnlyThreads (getAllThreadableEmails parse now limit docs) = Some byId \<and>
         buildMessageIdWithProximityThreads proximityHours (getAllThreadableEmails parse now limit docs')
           = Some byProximity \<and>
         buildMessageIdWithProximityThreads proximityHours (getAllThreadableEmails parse now limit docs)
           = Some byProximity \<and>
         buildHybridThreads (getAllThreadableEmails parse now limit docs') = Some hybrid \<and>
         buildHybridThreads (getAllThreadableEmails parse now limit docs) = Some hybrid"
    by (simp only: same) blast
next
  assume b: "mset emails' = mset emails \<and> (\<forall>e \<in> set emails. dateSent e \<noteq> None) \<and>
    inj_on dateSent (set emails) \<and> inj_on messageId (set emails) \<and>
    (\<forall>e \<in> set emails. \<forall>p \<in> set emails.
       truthy (inReplyTo e) \<and> inReplyTo e = messageId p \<longrightarrow> rank p < rank e) \<and>
    tid \<noteq> [] \<and> (\<exists>e \<in> set emails. threadId e = Some tid)"
  let ?es = "sortBy compareDateSent (filter (\<lambda>e. threadId e = Some tid) emails)"
  from b have g: "threadsGet (groupByThreads emails') tid = threadsGet (groupByThreads emails) tid"
    by (intro groupByThreads_permutation) simp_all
  then have t: "buildThreadTree (groupByThreads emails') tid = buildThreadTree (groupByThreads emails) tid"
    by (simp only: buildThreadTree_def)
  have s: "generateThreadStats (groupByThreads emails') tid
        = generateThreadStats (groupByThreads emails) tid"
    by (simp only: generateThreadStats_def t g)
  from b have nonempty: "filter (\<lambda>e. threadId e = Some tid) emails \<noteq> []"
    by (auto simp: filter_empty_conv)
  with b have get: "threadsGet (groupByThreads emails) tid = Some ?es"
    by (simp add: threadsGet_groupByThreads)
  have sub: "set ?es \<subseteq> set emails" by (auto simp: set_sortBy)
  have ne: "?es \<noteq> []" using nonempty by (metis mset_sortBy mset_zero_iff)
  have inj: "inj_on messageId (set ?es)" using b sub by (blast intro: inj_on_subset)
  have rank: "\<forall>e \<in> set ?es. \<forall>p \<in> set ?es.
      truthy (inReplyTo e) \<and> inReplyTo e = messageId p \<longrightarrow> rank p < rank e"
    using b sub by blast
  from generateThreadStats_returns [OF get ne inj rank]
  obtain tree st where "buildThreadTree (groupByThreads emails) tid = Inr (Some tree)"
    "generateThreadStats (groupByThreads emails) tid = Inr (Some st)" by blast
  then show "\<exists>tree st.
         buildThreadTree (groupByThreads emails') tid = Inr (Some tree) \<and>
         buildThreadTree (groupByThreads emails) tid = Inr (Some tree) \<and>
         generateThreadStats (groupByThreads emails') tid = Inr (Some st) \<and>
         generateThreadStats (groupByThreads emails) tid = Inr (Some st)"
    by (simp only: t s) blast
qed

text \<open>C9 on a message and a later reply, listed in both orders, and on the shuffled chain.\<close>

theorem resolution_order_independent_witness:
  "mset [docLate, docRoot] = mset [docRoot, docLate] \<and>
   (\<exists>hybrid.
      buildHybridThreads (getAllThreadableEmails fixtureParse 0 100 [docLate, docRoot]) = Some hybrid \<and>
      buildHybridThreads (getAllThreadableEmails fixtureParse 0 100 [docRoot, docLate]) = Some hybrid \<and>
      membership (Some hybrid) = Some [(Some ''a@h'', [Some ''1'', Some ''3''])]) \<and>
   mset chain3Shuffled = mset chain3 \<and>
   (\<exists>st. generateThreadStats (groupByThreads chain3Shuffled) ''T1'' = Inr (Some st) \<and>
      generateThreadStats (groupByThreads chain3) ''T1'' = Inr (Some st) \<and> maxDepth st = 3)"
proof -
  let ?root = "solrEmail fixtureParse 0 docRoot" and ?late = "solrEmail fixtureParse 0 docLate"
  let ?rank = "\<lambda>e :: email. nat (timeValue e)"
  note fields = fields_docRoot fields_docLate
  have h1: "mset [docLate, docRoot] = mset [docRoot, docLate]" by simp
  have h2: "\<forall>d \<in> set [docRoot, docLate]. dateSent (solrEmail fixtureParse 0 d) \<noteq> None"
    by (simp add: fields)
  have h3: "inj_on dateSent (solrEmail fixtureParse 0 ` set [docRoot, docLate])"
    by (rule inj_onI) (auto simp: fields)
  have h4: "inj_on messageId {e \<in> solrEmail fixtureParse 0 ` set [docRoot, docLate]. truthy (messageId e)}"
    by (rule inj_onI) (auto simp: fields)
  have h5: "\<forall>e \<in> solrEmail fixtureParse 0 ` set [docRoot, docLate].
      \<forall>p \<in> solrEmail fixtureParse 0 ` set [docRoot, docLate].
        truthy (inReplyTo e) \<and> inReplyTo e = messageId p \<longrightarrow> ?rank p < ?rank e"
    by (simp add: fields timeValue_def)
  have g1: "mset chain3Shuffled = mset chain3" by (simp add: chain3_def chain3Shuffled_def)
  have g2: "\<forall>e \<in> set chain3. dateSent e \<noteq> None" by (simp add: chain3_def mkEmail_def)
  have g3: "inj_on dateSent (set chain3)"
    by (rule inj_onI) (auto simp: chain3_def mkEmail_def)
  have g4: "inj_on messageId (set chain3)"
    by (rule inj_onI) (auto simp: chain3_def mkEmail_def)
  have g5: "\<forall>e \<in> set chain3. \<forall>p \<in> set chain3.
      truthy (inReplyTo e) \<and> inReplyTo e = messageId p \<longrightarrow> ?rank p < ?rank e"
    by (simp add: chain3_def mkEmail_def timeValue_def)
  have g6: "''T1'' \<noteq> []" by simp
  have g7: "\<exists>e \<in> set chain3. threadId e = Some ''T1''" by (simp add: chain3_def mkEmail_def)
  note t = resolution_order_independent [where docs' = "[docLate, docRoot]" and docs = "[docRoot, docLate]"
      and parse = fixtureParse and now = 0 and limit = 100 and proximityHours = 24
      and emails' = chain3Shuffled and emails = chain3 and tid = "''T1''" and rank = ?rank]
  from t h1 h2 h3 h4 h5
  obtain hybrid where same:
    "buildHybridThreads (getAllThreadableEmails fixtureParse 0 100 [docLate, docRoot]) = Some hybrid"
    "buildHybridThreads (getAllThreadableEmails fixtureParse 0 100 [docRoot, docLate]) = Some hybrid"
    by blast
  from t g1 g2 g3 g4 g5 g6 g7
  obtain st where stats: "generateThreadStats (groupByThreads chain3Shuffled) ''T1'' = Inr (Some st)"
    "generateThreadStats (groupByThreads chain3) ''T1'' = Inr (Some st)" by blast
  have walk: "findRoot [''a@h'' \<mapsto> ?root, ''c@h'' \<mapsto> ?late] ?late = Some ?root"
    by (subst findRoot.simps, simp add: fields, subst findRoot.simps, simp add: fields)
  have "membership (buildHybridThreads (getAllThreadableEmails fixtureParse 0 100 [docRoot, docLate]))
     = Some [(Some ''a@h'', [Some ''1'', Some ''3''])]"
    by (simp add: buildHybridThreads_def getAllThreadableEmails_def registerEmail_def
          sortBy_def compareDateSent_def hybridStep_def hasParent_def threadKey_def orStr_def
          getThread_def joinThread_def newThread_def Let_def membership_def finishThreads_def
          set_setAdd fields walk)
  then have members: "membership (Some hybrid) = Some [(Some ''a@h'', [Some ''1'', Some ''3''])]"
    by (simp only: same)
  have "statOf maxDepth (generateThreadStats (groupByThreads chain3) ''T1'') = Some 3"
    by code_simp
  then have depth: "maxDepth st = 3" by (simp add: stats statOf_def)
  from h1 same members g1 stats depth show ?thesis by blast
qed

end
